theory Spec2Isabelle
  imports Complex_Main "HOL-Library.AList" "HOL-Library.Sublist"
begin

section \<open>Data model of the tap-race matchmaker (backend/src/matchmaker.ts)\<close>

text \<open>
  Times are wall-clock milliseconds as returned by \<open>Date.now()\<close>, hence integers.
  Every handler receives the value of \<open>Date.now()\<close> as its first argument \<open>now\<close>; all
  reads of the clock within one run of a handler or timer callback return that value.
  Player ids, socket ids and user names are strings.  A match id is produced by
  \<open>uuidv4()\<close> in the source; here the fresh id is the next value of a counter.

  The field \<open>id\<close> of \<open>Player\<close> is called \<open>pid\<close> and the field \<open>id\<close> of \<open>GameMatch\<close> is
  called \<open>mid\<close>, since \<open>id\<close> is the identity function of HOL.  \<open>socket.join\<close> and
  \<open>socket.leave\<close> of the room \<open>queue\<close> and the \<open>console\<close> output have no effect on the
  matchmaker's state or on the events it emits and are left out.
\<close>

record Player =
  pid :: string
  socketId :: string
  username :: string
  taps :: nat
  isReady :: bool
  lastTapTimestamp :: int
  validatedTaps :: nat

datatype Status = Waiting | Starting | Active | Finished

text \<open>
  The \<open>timestamp\<close> of a \<open>tap\<close> event is whatever the client put on the wire; the handler
  does not check it.  \<open>validateTap\<close> only subtracts it from the clock, so what counts is
  its value as a number: an integer number of milliseconds (\<open>Num\<close>), or \<open>NaN\<close> when the
  field is missing or is not numeric (the mobile client of this repository sends an ISO
  date string).
\<close>

datatype jsnum = Num int | NaN

text \<open>\<open>Math.abs(currentTime - timestamp)\<close>: arithmetic with \<open>NaN\<close> gives \<open>NaN\<close>.\<close>

definition abs_diff :: "int \<Rightarrow> jsnum \<Rightarrow> jsnum" where
  "abs_diff currentTime timestamp =
     (case timestamp of Num t \<Rightarrow> Num \<bar>currentTime - t\<bar> | NaN \<Rightarrow> NaN)"

text \<open>\<open>x > y\<close> in JavaScript: every comparison with \<open>NaN\<close> is false.\<close>

definition js_gt :: "jsnum \<Rightarrow> int \<Rightarrow> bool" where
  "js_gt x y = (case x of Num a \<Rightarrow> a > y | NaN \<Rightarrow> False)"

text \<open>
  A JavaScript \<open>Map\<close> iterates in insertion order; \<open>set\<close> on a present key keeps the
  key's position and \<open>set\<close> on an absent key appends.  The two maps that are iterated
  (\<open>queue.players\<close> and \<open>match.players\<close>) are association lists with exactly these
  operations (\<open>AList.update\<close>, \<open>AList.delete\<close>, \<open>map_of\<close>).
\<close>

record GameMatch =
  mid :: nat
  players :: "(string \<times> Player) list"
  status :: Status
  startTime :: "int option"
  endTime :: "int option"
  duration :: int
  winner :: "string option"

record Result =
  r_id :: string
  r_username :: string
  r_taps :: nat
  r_isWinner :: bool

datatype payload =
    ErrorMsg string
  | QueueJoined nat
  | QueueLeft
  | MatchFound nat "(string \<times> string) list"
  | MatchStarted nat int "int option"
  | PlayerTapped string string nat
  | TapConfirmed nat
  | PlayerDisconnected string
  | MatchEnded nat "Result list" "string option"

text \<open>
  \<open>ToSocket sid\<close> stands for both \<open>socket.emit\<close> on the socket with id \<open>sid\<close> and
  \<open>io.to(sid).emit\<close>; \<open>ToRoom m\<close> stands for \<open>io.to(matchId).emit\<close>.
\<close>

datatype target = ToSocket string | ToRoom nat

datatype emission = Emit target payload

text \<open>
  The three \<open>setTimeout\<close> callbacks of the source.  The clean-up closure of \<open>endMatch\<close>
  captures the match object itself, which is why match objects live in a store
  (\<open>matchObjs\<close>) that outlives their entry in the map \<open>matches\<close>.
\<close>

datatype timer = StartTimer nat | EndTimer nat | CleanupTimer nat

record state =
  matchObjs :: "nat \<rightharpoonup> GameMatch"
  matches :: "nat list"
  queue :: "(string \<times> Player) list"
  playerToMatch :: "string \<rightharpoonup> nat"
  playerQueue :: "string \<rightharpoonup> string"
  timers :: "(int \<times> timer) list"
  nextMatchId :: nat
  clock :: int

definition MATCH_SIZE :: nat where "MATCH_SIZE = 2"
definition MATCH_DURATION :: int where "MATCH_DURATION = 30000"
definition TAP_VALIDATION_WINDOW :: int where "TAP_VALIDATION_WINDOW = 100"
definition MAX_TAPS_PER_SECOND :: int where "MAX_TAPS_PER_SECOND = 10"

definition init :: state where
  "init = \<lparr> matchObjs = Map.empty, matches = [], queue = [], playerToMatch = Map.empty,
            playerQueue = Map.empty, timers = [], nextMatchId = 0, clock = 0 \<rparr>"

text \<open>\<open>this.matches.get(matchId)\<close>: the object is found only while its key is in the map.\<close>

definition get_match :: "state \<Rightarrow> nat \<Rightarrow> GameMatch option" where
  "get_match s m = (if m \<in> set (matches s) then matchObjs s m else None)"

definition put_match :: "state \<Rightarrow> nat \<Rightarrow> GameMatch \<Rightarrow> state" where
  "put_match s m obj = s\<lparr> matchObjs := (matchObjs s)(m \<mapsto> obj) \<rparr>"

definition err :: "string \<Rightarrow> string \<Rightarrow> emission" where
  "err sock msg = Emit (ToSocket sock) (ErrorMsg msg)"


section \<open>Tap validation and tap handling\<close>

text \<open>
  \<open>validateTap\<close> returns the boolean of the source together with the player object
  after the call (the source mutates \<open>player.lastTapTimestamp\<close> in place).
  \<open>1000 / MAX_TAPS_PER_SECOND\<close> is JavaScript's real division.
\<close>

definition validateTap :: "int \<Rightarrow> Player \<Rightarrow> jsnum \<Rightarrow> bool \<times> Player" where
  "validateTap now player timestamp =
     (let currentTime = now;
          timeDifference = abs_diff currentTime timestamp
      in if js_gt timeDifference TAP_VALIDATION_WINDOW then (False, player)
         else let timeSinceLastTap = currentTime - lastTapTimestamp player
              in if real_of_int timeSinceLastTap < 1000 / real_of_int MAX_TAPS_PER_SECOND
                 then (False, player)
                 else (True, player\<lparr> lastTapTimestamp := currentTime \<rparr>))"

definition handleTap :: "int \<Rightarrow> state \<Rightarrow> string \<Rightarrow> string \<Rightarrow> nat \<Rightarrow> jsnum \<Rightarrow> state \<times> emission list" where
  "handleTap now s sock userId matchId timestamp =
     (case get_match s matchId of
        None \<Rightarrow> (s, [err sock ''Match not found''])
      | Some match \<Rightarrow>
          if status match \<noteq> Active then (s, [err sock ''Match not active''])
          else (case map_of (players match) userId of
                  None \<Rightarrow> (s, [err sock ''Player not in match''])
                | Some player \<Rightarrow>
                    (case validateTap now player timestamp of
                       (False, _) \<Rightarrow> (s, [err sock ''Invalid tap detected''])
                     | (True, p1) \<Rightarrow>
                         let p2 = p1\<lparr> validatedTaps := validatedTaps p1 + 1 \<rparr>;
                             p3 = p2\<lparr> taps := taps p2 + 1 \<rparr>;
                             match' = match\<lparr> players := AList.update userId p3 (players match) \<rparr>
                         in (put_match s matchId match',
                             [Emit (ToRoom matchId) (PlayerTapped userId (username p3) (validatedTaps p3)),
                              Emit (ToSocket sock) (TapConfirmed (validatedTaps p3))]))))"


section \<open>Ending a match\<close>

text \<open>
  The winner loop of \<open>endMatch\<close>: \<open>maxTaps\<close> starts at \<open>-1\<close> and a player replaces the
  current winner only when its count is strictly greater.
\<close>

definition winner_step :: "Player \<Rightarrow> int \<times> Player option \<Rightarrow> int \<times> Player option" where
  "winner_step player acc =
     (if int (validatedTaps player) > fst acc then (int (validatedTaps player), Some player) else acc)"

definition determine_winner :: "Player list \<Rightarrow> int \<times> Player option" where
  "determine_winner ps = fold winner_step ps (-1, None)"

text \<open>
  \<open>Array.prototype.sort\<close> is a stable sort; with the comparator \<open>b.taps - a.taps\<close> it
  orders by descending \<open>taps\<close>, which is the stable insertion sort on the key \<open>- taps\<close>.
\<close>

definition sort_results :: "Result list \<Rightarrow> Result list" where
  "sort_results rs = sort_key (\<lambda>r. - int (r_taps r)) rs"

definition mk_result :: "string option \<Rightarrow> Player \<Rightarrow> Result" where
  "mk_result w p = \<lparr> r_id = pid p, r_username = username p, r_taps = validatedTaps p,
                     r_isWinner = (Some (pid p) = w) \<rparr>"

definition endMatch :: "int \<Rightarrow> state \<Rightarrow> nat \<Rightarrow> state \<times> emission list" where
  "endMatch now s matchId =
     (case get_match s matchId of
        None \<Rightarrow> (s, [])
      | Some match \<Rightarrow>
          let m1 = match\<lparr> status := Finished, endTime := Some now \<rparr>;
              m2 = (case snd (determine_winner (map snd (players m1))) of
                      None \<Rightarrow> m1
                    | Some w \<Rightarrow> m1\<lparr> winner := Some (pid w) \<rparr>);
              results = sort_results (map (mk_result (winner m2)) (map snd (players m2)));
              out = map (\<lambda>player. Emit (ToSocket (socketId player)) (MatchEnded matchId results (winner m2)))
                        (map snd (players m2));
              s1 = put_match s matchId m2
          in (s1\<lparr> timers := timers s1 @ [(now + 5000, CleanupTimer matchId)] \<rparr>, out))"

text \<open>
  The clean-up callback scheduled by \<open>endMatch\<close>.  It reads the roster of the captured
  match object, whether or not the object is still in \<open>matches\<close>.
\<close>

definition cleanup :: "state \<Rightarrow> nat \<Rightarrow> state" where
  "cleanup s matchId =
     (case matchObjs s matchId of
        None \<Rightarrow> s
      | Some match \<Rightarrow>
          s\<lparr> matches := removeAll matchId (matches s),
             playerToMatch := fold (\<lambda>player m. m(pid player := None)) (map snd (players match))
                                   (playerToMatch s) \<rparr>)"


section \<open>Queue, pairing and match start\<close>

text \<open>
  \<open>createMatch\<close>: the loop body for one of the first \<open>MATCH_SIZE\<close> players of the
  snapshot \<open>queueArray\<close>; the accumulator is the roster under construction and the state.
\<close>

definition take_player :: "nat \<Rightarrow> Player \<Rightarrow> (string \<times> Player) list \<times> state \<Rightarrow> (string \<times> Player) list \<times> state" where
  "take_player matchId player acc =
     (AList.update (pid player) player (fst acc),
      (snd acc)\<lparr> queue := AList.delete (pid player) (queue (snd acc)),
                 playerQueue := (playerQueue (snd acc))(pid player := None),
                 playerToMatch := (playerToMatch (snd acc))(pid player \<mapsto> matchId) \<rparr>)"

definition createMatch :: "int \<Rightarrow> state \<Rightarrow> state \<times> emission list" where
  "createMatch now s =
     (if length (queue s) < MATCH_SIZE then (s, [])
      else
        let matchId = nextMatchId s;
            queueArray = map snd (queue s);
            (roster, s1) = fold (take_player matchId) (take MATCH_SIZE queueArray) ([], s);
            match = \<lparr> mid = matchId, players = roster, status = Waiting, startTime = None,
                      endTime = None, duration = MATCH_DURATION, winner = None \<rparr>;
            s2 = (put_match s1 matchId match)\<lparr> matches := matches s1 @ [matchId],
                                                nextMatchId := Suc matchId \<rparr>;
            out = map (\<lambda>player. Emit (ToSocket (socketId player))
                                     (MatchFound matchId (map (\<lambda>p. (pid p, username p)) (map snd roster))))
                      (map snd roster)
        in (s2\<lparr> timers := timers s2 @ [(now + 2000, StartTimer matchId)] \<rparr>, out))"

definition handleJoinQueue :: "int \<Rightarrow> state \<Rightarrow> string \<Rightarrow> string \<Rightarrow> string \<Rightarrow> state \<times> emission list" where
  "handleJoinQueue now s sock userId uname =
     (if playerToMatch s userId \<noteq> None then (s, [err sock ''Already in a match''])
      else if playerQueue s userId \<noteq> None then (s, [err sock ''Already in queue''])
      else
        let player = \<lparr> pid = userId, socketId = sock, username = uname, taps = 0, isReady = False,
                       lastTapTimestamp = 0, validatedTaps = 0 \<rparr>;
            s1 = s\<lparr> queue := AList.update userId player (queue s),
                    playerQueue := (playerQueue s)(userId \<mapsto> ''main'') \<rparr>;
            out1 = [Emit (ToSocket sock) (QueueJoined (length (queue s1)))]
        in if length (queue s1) \<ge> MATCH_SIZE
           then (let (s2, out2) = createMatch now s1 in (s2, out1 @ out2))
           else (s1, out1))"

definition handleLeaveQueue :: "state \<Rightarrow> string \<Rightarrow> string \<Rightarrow> state \<times> emission list" where
  "handleLeaveQueue s sock userId =
     (if playerQueue s userId = None then (s, [err sock ''Not in queue''])
      else (s\<lparr> queue := AList.delete userId (queue s),
               playerQueue := (playerQueue s)(userId := None) \<rparr>,
            [Emit (ToSocket sock) QueueLeft]))"

definition startMatch :: "int \<Rightarrow> state \<Rightarrow> nat \<Rightarrow> state \<times> emission list" where
  "startMatch now s matchId =
     (case get_match s matchId of
        None \<Rightarrow> (s, [])
      | Some match \<Rightarrow>
          let m1 = match\<lparr> status := Active, startTime := Some now \<rparr>;
              out = map (\<lambda>player. Emit (ToSocket (socketId player))
                                       (MatchStarted matchId (duration m1) (startTime m1)))
                        (map snd (players m1));
              s1 = put_match s matchId m1
          in (s1\<lparr> timers := timers s1 @ [(now + duration m1, EndTimer matchId)] \<rparr>, out))"

definition handlePlayerReady :: "int \<Rightarrow> state \<Rightarrow> string \<Rightarrow> string \<Rightarrow> nat \<Rightarrow> state \<times> emission list" where
  "handlePlayerReady now s sock userId matchId =
     (case get_match s matchId of
        None \<Rightarrow> (s, [err sock ''Match not found''])
      | Some match \<Rightarrow>
          (case map_of (players match) userId of
             None \<Rightarrow> (s, [err sock ''Player not in match''])
           | Some player \<Rightarrow>
               let m1 = match\<lparr> players := AList.update userId (player\<lparr> isReady := True \<rparr>) (players match) \<rparr>;
                   s1 = put_match s matchId m1;
                   allReady = list_all isReady (map snd (players m1))
               in if allReady \<and> status m1 = Waiting then startMatch now s1 matchId else (s1, [])))"


section \<open>Disconnects\<close>

definition drop_queued :: "string \<Rightarrow> string \<times> Player \<Rightarrow> state \<Rightarrow> state" where
  "drop_queued sock e s =
     (if socketId (snd e) = sock
      then s\<lparr> queue := AList.delete (fst e) (queue s), playerQueue := (playerQueue s)(fst e := None) \<rparr>
      else s)"

text \<open>
  The inner loop body of \<open>handleDisconnect\<close> for one entry of the snapshot of a match's
  roster; \<open>match\<close> is the object the outer \<open>forEach\<close> handed to the callback.
\<close>

definition drop_from_match :: "int \<Rightarrow> string \<Rightarrow> nat \<Rightarrow> string \<times> Player \<Rightarrow> state \<times> emission list \<Rightarrow> state \<times> emission list" where
  "drop_from_match now sock matchId e acc =
     (if socketId (snd e) = sock then
        (case matchObjs (fst acc) matchId of
           None \<Rightarrow> acc
         | Some match \<Rightarrow>
             let m1 = match\<lparr> players := AList.delete (fst e) (players match) \<rparr>;
                 s1 = (put_match (fst acc) matchId m1)\<lparr> playerToMatch := (playerToMatch (fst acc))(fst e := None) \<rparr>;
                 out1 = map (\<lambda>p. Emit (ToSocket (socketId p)) (PlayerDisconnected (fst e)))
                            (map snd (players m1))
             in if length (players m1) = 0
                then (let (s2, out2) = endMatch now s1 matchId in (s2, snd acc @ out1 @ out2))
                else (s1, snd acc @ out1))
      else acc)"

definition disconnect_match :: "int \<Rightarrow> string \<Rightarrow> nat \<Rightarrow> state \<times> emission list \<Rightarrow> state \<times> emission list" where
  "disconnect_match now sock matchId acc =
     (case matchObjs (fst acc) matchId of
        None \<Rightarrow> acc
      | Some match \<Rightarrow> fold (drop_from_match now sock matchId) (players match) acc)"

definition handleDisconnect :: "int \<Rightarrow> state \<Rightarrow> string \<Rightarrow> state \<times> emission list" where
  "handleDisconnect now s sock =
     fold (disconnect_match now sock) (matches s) (fold (drop_queued sock) (queue s) s, [])"


section \<open>The event loop\<close>

text \<open>
  One step is one inbound socket event or one expired timer, run to completion at
  wall-clock time \<open>now\<close>.  The clock never goes back, and a timer fires no earlier than
  the time it was scheduled for.  \<open>TimerFires i\<close> fires the \<open>i\<close>-th pending timer.
\<close>

datatype event =
    JoinQueue string string string
  | LeaveQueue string string
  | PlayerReady string string nat
  | Tap string string nat jsnum
  | Disconnect string
  | TimerFires nat

definition fire :: "int \<Rightarrow> state \<Rightarrow> nat \<Rightarrow> (state \<times> emission list) option" where
  "fire now s i =
     (if i < length (timers s) \<and> fst (timers s ! i) \<le> now then
        let s1 = s\<lparr> timers := take i (timers s) @ drop (Suc i) (timers s) \<rparr>
        in Some (case snd (timers s ! i) of
                   StartTimer m \<Rightarrow> startMatch now s1 m
                 | EndTimer m \<Rightarrow> endMatch now s1 m
                 | CleanupTimer m \<Rightarrow> (cleanup s1 m, []))
      else None)"

definition step :: "int \<Rightarrow> event \<Rightarrow> state \<Rightarrow> (state \<times> emission list) option" where
  "step now ev s =
     (if now < clock s then None
      else let s0 = s\<lparr> clock := now \<rparr> in
        (case ev of
           JoinQueue sock userId uname \<Rightarrow> Some (handleJoinQueue now s0 sock userId uname)
         | LeaveQueue sock userId \<Rightarrow> Some (handleLeaveQueue s0 sock userId)
         | PlayerReady sock userId matchId \<Rightarrow> Some (handlePlayerReady now s0 sock userId matchId)
         | Tap sock userId matchId ts \<Rightarrow> Some (handleTap now s0 sock userId matchId ts)
         | Disconnect sock \<Rightarrow> Some (handleDisconnect now s0 sock)
         | TimerFires i \<Rightarrow> fire now s0 i))"

fun run :: "(int \<times> event) list \<Rightarrow> state \<Rightarrow> (state \<times> emission list) option" where
  "run [] s = Some (s, [])"
| "run ((now, ev) # es) s =
     (case step now ev s of
        None \<Rightarrow> None
      | Some (s1, out1) \<Rightarrow>
          (case run es s1 of
             None \<Rightarrow> None
           | Some (s2, out2) \<Rightarrow> Some (s2, out1 @ out2)))"


section \<open>Properties of states and steps\<close>

text \<open>P1: no player id is in both indices.\<close>

definition disjoint_idx :: "state \<Rightarrow> bool" where
  "disjoint_idx s \<longleftrightarrow> dom (playerQueue s) \<inter> dom (playerToMatch s) = {}"

text \<open>
  How the match objects of \<open>s'\<close> relate to those of \<open>s\<close>: a new object is in
  \<open>waiting\<close>; an existing one keeps its status or has become \<open>active\<close> or \<open>finished\<close>.
\<close>

definition status_moves :: "state \<Rightarrow> state \<Rightarrow> bool" where
  "status_moves s s' \<longleftrightarrow>
     (\<forall>m. case matchObjs s m of
             None \<Rightarrow> (case matchObjs s' m of None \<Rightarrow> True | Some b \<Rightarrow> status b = Waiting)
           | Some a \<Rightarrow> (\<exists>b. matchObjs s' m = Some b \<and>
                            (status b = status a \<or> status b = Active \<or> status b = Finished)))"

definition never_starting :: "state \<Rightarrow> bool" where
  "never_starting s \<longleftrightarrow> (\<forall>m. case matchObjs s m of None \<Rightarrow> True | Some a \<Rightarrow> status a \<noteq> Starting)"

definition fresh_ids :: "state \<Rightarrow> bool" where
  "fresh_ids s \<longleftrightarrow> (\<forall>m. nextMatchId s \<le> m \<longrightarrow> matchObjs s m = None)"

definition sound :: "state \<Rightarrow> bool" where
  "sound s \<longleftrightarrow> fresh_ids s \<and> never_starting s"

text \<open>
  What every handler other than \<open>handleJoinQueue\<close> does to the indices and the match
  objects: the indices only lose keys, no match object appears, and a status is kept or
  becomes \<open>active\<close> or \<open>finished\<close>.
\<close>

definition quiet :: "state \<Rightarrow> state \<Rightarrow> bool" where
  "quiet s s' \<longleftrightarrow>
     dom (playerQueue s') \<subseteq> dom (playerQueue s) \<and>
     dom (playerToMatch s') \<subseteq> dom (playerToMatch s) \<and>
     nextMatchId s' = nextMatchId s \<and>
     (\<forall>m. case matchObjs s m of
             None \<Rightarrow> matchObjs s' m = None
           | Some a \<Rightarrow> (\<exists>b. matchObjs s' m = Some b \<and>
                            (status b = status a \<or> status b = Active \<or> status b = Finished)))"

text \<open>
  The queue map and its index agree: keys are distinct, each entry is filed under the id
  of its player, and the keys are exactly the ids in \<open>playerQueue\<close>.
\<close>

definition queue_ok :: "state \<Rightarrow> bool" where
  "queue_ok s \<longleftrightarrow>
     distinct (map fst (queue s)) \<and> (\<forall>e\<in>set (queue s). pid (snd e) = fst e) \<and>
     fst ` set (queue s) = dom (playerQueue s)"

text \<open>Each roster entry is filed under the id of its player.\<close>

definition roster_ok :: "GameMatch \<Rightarrow> bool" where
  "roster_ok a \<longleftrightarrow> (\<forall>e\<in>set (players a). pid (snd e) = fst e)"

text \<open>
  What any step does to one match object: it never returns to \<open>waiting\<close>, and its roster
  only loses entries, so the entries that stay keep their relative order.
\<close>

definition obj_step :: "GameMatch \<Rightarrow> GameMatch \<Rightarrow> bool" where
  "obj_step a b \<longleftrightarrow>
     (status a \<noteq> Waiting \<longrightarrow> status b \<noteq> Waiting) \<and>
     subseq (map fst (players b)) (map fst (players a)) \<and>
     (roster_ok a \<longrightarrow> roster_ok b)"

text \<open>
  \<open>kept s s'\<close>: every match object of \<open>s\<close> is still there in \<open>s'\<close> and has only made
  such steps, and every end timer pending in \<open>s'\<close> was pending in \<open>s\<close> or belongs to a
  match that is not waiting.
\<close>

definition kept :: "state \<Rightarrow> state \<Rightarrow> bool" where
  "kept s s' \<longleftrightarrow>
     (\<forall>m a. matchObjs s m = Some a \<longrightarrow> (\<exists>b. matchObjs s' m = Some b \<and> obj_step a b)) \<and>
     (\<forall>d m. (d, EndTimer m) \<in> set (timers s') \<longrightarrow>
        (d, EndTimer m) \<in> set (timers s) \<or> (\<exists>b. matchObjs s' m = Some b \<and> status b \<noteq> Waiting))"

text \<open>An end timer is pending only for a match that has been started.\<close>

definition end_timers_ok :: "state \<Rightarrow> bool" where
  "end_timers_ok s \<longleftrightarrow>
     (\<forall>d m. (d, EndTimer m) \<in> set (timers s) \<longrightarrow> (\<exists>a. matchObjs s m = Some a \<and> status a \<noteq> Waiting))"

text \<open>
  What \<open>handleDisconnect\<close> does to one match object: the status is kept, or the roster
  has become empty and the match is finished; and a roster that it empties leaves the
  match finished.
\<close>

definition disc_obj :: "GameMatch \<Rightarrow> GameMatch \<Rightarrow> bool" where
  "disc_obj a b \<longleftrightarrow>
     (players a = [] \<longrightarrow> players b = []) \<and>
     (status b = status a \<or> (status b = Finished \<and> players b = [])) \<and>
     (players b = [] \<longrightarrow> players a = [] \<or> status b = Finished)"

definition disc_rel :: "state \<Rightarrow> state \<Rightarrow> bool" where
  "disc_rel s s' \<longleftrightarrow>
     matches s' = matches s \<and>
     (\<forall>m a. matchObjs s m = Some a \<longrightarrow> (\<exists>b. matchObjs s' m = Some b \<and> disc_obj a b))"


section \<open>Observers and example runs\<close>

definition status_of :: "state \<Rightarrow> nat \<Rightarrow> Status option" where
  "status_of s m = map_option status (get_match s m)"

definition roster_of :: "state \<Rightarrow> nat \<Rightarrow> string list option" where
  "roster_of s m = map_option (\<lambda>x. map fst (players x)) (get_match s m)"

definition counts_of :: "state \<Rightarrow> nat \<Rightarrow> nat list option" where
  "counts_of s m = map_option (\<lambda>x. map (\<lambda>e. validatedTaps (snd e)) (players x)) (get_match s m)"

definition winner_of :: "state \<Rightarrow> nat \<Rightarrow> string option option" where
  "winner_of s m = map_option winner (get_match s m)"

definition startTime_of :: "state \<Rightarrow> nat \<Rightarrow> int option option" where
  "startTime_of s m = map_option startTime (get_match s m)"

definition endTime_of :: "state \<Rightarrow> nat \<Rightarrow> int option option" where
  "endTime_of s m = map_option endTime (get_match s m)"

text \<open>The state reached by a run from the initial state, and the events it emitted.\<close>

definition state_after :: "(int \<times> event) list \<Rightarrow> state option" where
  "state_after tr = map_option fst (run tr init)"

definition emitted :: "(int \<times> event) list \<Rightarrow> emission list option" where
  "emitted tr = map_option snd (run tr init)"

definition alice :: Player where
  "alice = \<lparr> pid = ''A'', socketId = ''s1'', username = ''alice'', taps = 0, isReady = False,
             lastTapTimestamp = 0, validatedTaps = 0 \<rparr>"

definition bob :: Player where
  "bob = \<lparr> pid = ''B'', socketId = ''s2'', username = ''bob'', taps = 0, isReady = False,
           lastTapTimestamp = 0, validatedTaps = 0 \<rparr>"

text \<open>A joins and waits alone.\<close>

definition tr_one_queued :: "(int \<times> event) list" where
  "tr_one_queued = [(0, JoinQueue ''s1'' ''A'' ''alice'')]"

definition st_one_queued :: state where
  "st_one_queued = init\<lparr> queue := [(''A'', alice)], playerQueue := [''A'' \<mapsto> ''main''] \<rparr>"

text \<open>A and B join; the pair is matched at time 10 (match 0), start timer due at 2010.\<close>

definition tr_found :: "(int \<times> event) list" where
  "tr_found = [(0, JoinQueue ''s1'' ''A'' ''alice''), (10, JoinQueue ''s2'' ''B'' ''bob'')]"

definition match_found :: GameMatch where
  "match_found = \<lparr> mid = 0, players = [(''A'', alice), (''B'', bob)], status = Waiting,
                   startTime = None, endTime = None, duration = 30000, winner = None \<rparr>"

definition st_found :: state where
  "st_found = \<lparr> matchObjs = [0 \<mapsto> match_found], matches = [0], queue = [],
                playerToMatch = [''A'' \<mapsto> 0, ''B'' \<mapsto> 0], playerQueue = Map.empty,
                timers = [(2010, StartTimer 0)], nextMatchId = 1, clock = 10 \<rparr>"

text \<open>The start timer fires: match 0 is active from 2010, end timer due at 32010.\<close>

definition tr_active :: "(int \<times> event) list" where
  "tr_active = tr_found @ [(2010, TimerFires 0)]"

definition match_active :: GameMatch where
  "match_active = \<lparr> mid = 0, players = [(''A'', alice), (''B'', bob)], status = Active,
                    startTime = Some 2010, endTime = None, duration = 30000, winner = None \<rparr>"

definition st_active :: state where
  "st_active = \<lparr> matchObjs = [0 \<mapsto> match_active], matches = [0], queue = [],
                 playerToMatch = [''A'' \<mapsto> 0, ''B'' \<mapsto> 0], playerQueue = Map.empty,
                 timers = [(32010, EndTimer 0)], nextMatchId = 1, clock = 2010 \<rparr>"

text \<open>A taps once at 2100 and the tap is accepted.\<close>

definition tr_tapped :: "(int \<times> event) list" where
  "tr_tapped = tr_active @ [(2100, Tap ''s1'' ''A'' 0 (Num 2100))]"

definition match_tapped :: GameMatch where
  "match_tapped = match_active\<lparr> players :=
      [(''A'', alice\<lparr> taps := 1, lastTapTimestamp := 2100, validatedTaps := 1 \<rparr>), (''B'', bob)] \<rparr>"

definition st_tapped :: state where
  "st_tapped = st_active\<lparr> matchObjs := [0 \<mapsto> match_tapped], clock := 2100 \<rparr>"

text \<open>A sends a tap whose timestamp field is missing or not numeric, at server time 2100.\<close>

definition tr_nan :: "(int \<times> event) list" where
  "tr_nan = tr_active @ [(2100, Tap ''s1'' ''A'' 0 NaN)]"

text \<open>
  The continuation of \<open>st_found\<close> in which the match starts, B taps at 2100 and A taps
  at 2200: both have one validated tap, and B, who joined later, tapped first.
\<close>

definition tr_tie_rest :: "(int \<times> event) list" where
  "tr_tie_rest = [(2010, TimerFires 0), (2100, Tap ''s2'' ''B'' 0 (Num 2100)),
                  (2200, Tap ''s1'' ''A'' 0 (Num 2200))]"

definition match_tie :: GameMatch where
  "match_tie = match_active\<lparr> players :=
      [(''A'', alice\<lparr> taps := 1, lastTapTimestamp := 2200, validatedTaps := 1 \<rparr>),
       (''B'', bob\<lparr> taps := 1, lastTapTimestamp := 2100, validatedTaps := 1 \<rparr>)] \<rparr>"

definition st_tie :: state where
  "st_tie = st_active\<lparr> matchObjs := [0 \<mapsto> match_tie], clock := 2200 \<rparr>"

text \<open>Nobody taps and the end timer fires at 32010; clean-up is due at 37010.\<close>

definition tr_ended :: "(int \<times> event) list" where
  "tr_ended = tr_active @ [(32010, TimerFires 0)]"

definition match_ended :: GameMatch where
  "match_ended = match_active\<lparr> status := Finished, endTime := Some 32010, winner := Some ''A'' \<rparr>"

definition st_ended :: state where
  "st_ended = st_active\<lparr> matchObjs := [0 \<mapsto> match_ended], timers := [(37010, CleanupTimer 0)],
                         clock := 32010 \<rparr>"

text \<open>Both players leave the running match shortly before its end timer is due.\<close>

definition tr_late_leave :: "(int \<times> event) list" where
  "tr_late_leave = tr_active @ [(30000, Disconnect ''s1''), (30001, Disconnect ''s2'')]"

definition match_left :: GameMatch where
  "match_left = match_active\<lparr> players := [], status := Finished, endTime := Some 30001 \<rparr>"

definition st_left :: state where
  "st_left = \<lparr> matchObjs = [0 \<mapsto> match_left], matches = [0], queue = [],
               playerToMatch = Map.empty, playerQueue = Map.empty,
               timers = [(32010, EndTimer 0), (35001, CleanupTimer 0)], nextMatchId = 1,
               clock = 30001 \<rparr>"

text \<open>After pairing, A's socket disconnects while match 0 is still waiting.\<close>

definition tr_one_left :: "(int \<times> event) list" where
  "tr_one_left = tr_found @ [(100, Disconnect ''s1'')]"

definition match_one_left :: GameMatch where
  "match_one_left = match_found\<lparr> players := [(''B'', bob)] \<rparr>"

definition st_one_left :: state where
  "st_one_left = st_found\<lparr> matchObjs := [0 \<mapsto> match_one_left],
                            playerToMatch := [''B'' \<mapsto> 0], clock := 100 \<rparr>"

definition match_abandoned :: GameMatch where
  "match_abandoned = match_found\<lparr> players := [], status := Finished, endTime := Some 200 \<rparr>"

definition st_abandoned :: state where
  "st_abandoned = st_found\<lparr> matchObjs := [0 \<mapsto> match_abandoned], playerToMatch := Map.empty,
                             timers := [(2010, StartTimer 0), (5200, CleanupTimer 0)],
                             clock := 200 \<rparr>"

text \<open>Both players mark ready in the waiting window; the match starts at 600.\<close>

definition tr_early :: "(int \<times> event) list" where
  "tr_early = tr_found @ [(500, PlayerReady ''s1'' ''A'' 0), (600, PlayerReady ''s2'' ''B'' 0)]"

text \<open>
  After the early start every timer fires exactly when due: the deferred start (2010),
  the two end timers (30600, 32010) and the first clean-up (35600).  A and B then queue
  again and are paired into match 1 (35710); the second clean-up of match 0 fires
  (37010); match 1 starts (37710) and ends (67710).
\<close>

definition tr_stale :: "(int \<times> event) list" where
  "tr_stale = tr_early @
     [(2010, TimerFires 0), (30600, TimerFires 0), (32010, TimerFires 0), (35600, TimerFires 0),
      (35700, JoinQueue ''s1'' ''A'' ''alice''), (35710, JoinQueue ''s2'' ''B'' ''bob''),
      (37010, TimerFires 0), (37710, TimerFires 0), (67710, TimerFires 0)]"

text \<open>A and B are both queued and \<open>createMatch\<close> is about to run (inside the second join).\<close>

definition st_queued :: state where
  "st_queued = init\<lparr> queue := [(''A'', alice), (''B'', bob)],
                     playerQueue := [''A'' \<mapsto> ''main'', ''B'' \<mapsto> ''main''], clock := 10 \<rparr>"


section \<open>Unfolding the model on concrete runs\<close>

lemmas model_defs = init_def step_def handleJoinQueue_def createMatch_def take_player_def
  MATCH_SIZE_def MATCH_DURATION_def put_match_def get_match_def fire_def startMatch_def
  endMatch_def handlePlayerReady_def handleTap_def validateTap_def TAP_VALIDATION_WINDOW_def
  MAX_TAPS_PER_SECOND_def abs_diff_def js_gt_def handleDisconnect_def disconnect_match_def drop_from_match_def
  drop_queued_def handleLeaveQueue_def determine_winner_def winner_step_def sort_results_def
  mk_result_def cleanup_def err_def Let_def

lemmas example_defs = state_after_def emitted_def alice_def bob_def tr_found_def tr_active_def
  match_active_def st_active_def tr_tapped_def match_tapped_def st_tapped_def tr_ended_def
  match_ended_def st_ended_def tr_late_leave_def tr_one_left_def tr_early_def tr_stale_def
  st_queued_def status_of_def roster_of_def counts_of_def winner_of_def startTime_of_def
  endTime_of_def tr_one_queued_def st_one_queued_def match_found_def st_found_def
  tr_nan_def tr_tie_rest_def match_tie_def st_tie_def match_left_def st_left_def
  match_one_left_def st_one_left_def match_abandoned_def st_abandoned_def

text \<open>The example states are states of runs from the initial state.\<close>

lemma st_one_queued_reached: "state_after tr_one_queued = Some st_one_queued"
  by (simp add: model_defs example_defs fun_eq_iff)

lemma st_active_reached: "state_after tr_active = Some st_active"
  by (simp add: model_defs example_defs fun_eq_iff)

lemma st_tapped_reached: "state_after tr_tapped = Some st_tapped"
  by (simp add: model_defs example_defs fun_eq_iff)

lemma st_ended_reached: "state_after tr_ended = Some st_ended"
  by (simp add: model_defs example_defs fun_eq_iff)

lemma st_found_reached:
  "map_option fst (step 10 (JoinQueue ''s2'' ''B'' ''bob'') st_one_queued) = Some st_found"
  by (simp add: model_defs example_defs fun_eq_iff)

lemma st_tie_reached: "map_option fst (run tr_tie_rest st_found) = Some st_tie"
  by (simp add: model_defs example_defs fun_eq_iff)

lemma st_left_reached: "state_after tr_late_leave = Some st_left"
  by (simp add: model_defs example_defs fun_eq_iff)

lemma st_one_left_reached: "state_after tr_one_left = Some st_one_left"
  by (simp add: model_defs example_defs fun_eq_iff)

lemma st_abandoned_reached:
  "map_option fst (step 200 (Disconnect ''s2'') st_one_left) = Some st_abandoned"
  by (simp add: model_defs example_defs fun_eq_iff)


section \<open>The tap validator\<close>

text \<open>
  For a numeric timestamp \<open>validateTap\<close> does what its comments say: with the default
  constants (skew window 100 ms, 1000 / MAX_TAPS_PER_SECOND = 100 ms) the tap is accepted
  if and only if the timestamp is within 100 ms of the server time and at least 100 ms
  have passed since the last accepted tap; a timestamp outside the window is rejected
  whatever the rate rule would say; an accepted tap sets \<open>lastTapTimestamp\<close> to the
  server time and changes nothing else; a rejected tap leaves the player as it was.
\<close>

lemma validateTap_numeric:
  "TAP_VALIDATION_WINDOW = 100 \<and> 1000 / real_of_int MAX_TAPS_PER_SECOND = 100 \<and>
   (fst (validateTap now p (Num ts)) \<longleftrightarrow> \<bar>now - ts\<bar> \<le> 100 \<and> now - lastTapTimestamp p \<ge> 100) \<and>
   (\<bar>now - ts\<bar> > 100 \<longrightarrow> validateTap now p (Num ts) = (False, p)) \<and>
   (fst (validateTap now p (Num ts)) \<longrightarrow>
      snd (validateTap now p (Num ts)) = p\<lparr> lastTapTimestamp := now \<rparr>) \<and>
   (\<not> fst (validateTap now p (Num ts)) \<longrightarrow> snd (validateTap now p (Num ts)) = p)"
  by (auto simp: validateTap_def abs_diff_def js_gt_def TAP_VALIDATION_WINDOW_def
                 MAX_TAPS_PER_SECOND_def Let_def)

text \<open>Whatever the timestamp, a tap is rejected when the rate rule fails, and a rejected
  tap leaves the player as it was.\<close>

lemma validateTap_rate:
  "now - lastTapTimestamp p < 100 \<Longrightarrow> validateTap now p ts = (False, p)"
  by (auto simp: validateTap_def MAX_TAPS_PER_SECOND_def Let_def)

lemma validateTap_rejected: "\<not> fst (validateTap now p ts) \<Longrightarrow> snd (validateTap now p ts) = p"
  by (auto simp: validateTap_def Let_def)

text \<open>
  C1, evaluated on the code.  The comment in \<open>validateTap\<close> says "Validate timestamp is
  within acceptable range", but the check is \<open>timeDifference > TAP_VALIDATION_WINDOW\<close>,
  and for a timestamp that is missing or not numeric \<open>timeDifference\<close> is \<open>NaN\<close>, for
  which the comparison is false: the skew rule is passed over.  In the active match of
  A and B, a tap of A at server time 2100 with such a timestamp is accepted although the
  timestamp is not within 100 ms of the server time: \<open>lastTapTimestamp\<close> becomes 2100,
  A's count becomes 1, and \<open>player_tapped\<close> and \<open>tap_confirmed\<close> are emitted.
\<close>

theorem nan_timestamp_accepted:
  "abs_diff 2100 NaN = NaN \<and> \<not> js_gt NaN TAP_VALIDATION_WINDOW \<and>
   validateTap 2100 alice NaN = (True, alice\<lparr> lastTapTimestamp := 2100 \<rparr>) \<and>
   map_option (\<lambda>s. counts_of s 0) (state_after tr_nan) = Some (Some [1, 0]) \<and>
   map_option (drop 6) (emitted tr_nan)
     = Some [Emit (ToRoom 0) (PlayerTapped ''A'' ''alice'' 1),
             Emit (ToSocket ''s1'') (TapConfirmed 1)]"
  by (simp add: model_defs example_defs)


section \<open>Tap handling\<close>

text \<open>
  C5.  \<open>handleTap\<close> answers an unknown match id with the error "Match not found", a
  known match whose status is not \<open>active\<close> (in particular a finished one) with
  "Match not active", and an active match whose roster lacks the player with
  "Player not in match"; a tap the validator rejects is answered with "Invalid tap
  detected".  In each of these cases the result state is the state before the call and
  the only event is that error to the submitting socket.  A \<open>player_tapped\<close> event is
  emitted only for an active match, a player on its roster and an accepted tap.
\<close>

theorem handleTap_failures:
  "(get_match s m = None \<longrightarrow> handleTap now s sock u m ts = (s, [err sock ''Match not found''])) \<and>
   (\<forall>match. get_match s m = Some match \<and> status match \<noteq> Active \<longrightarrow>
        handleTap now s sock u m ts = (s, [err sock ''Match not active''])) \<and>
   (\<forall>match. get_match s m = Some match \<and> status match = Active \<and> map_of (players match) u = None \<longrightarrow>
        handleTap now s sock u m ts = (s, [err sock ''Player not in match''])) \<and>
   (\<forall>match player. get_match s m = Some match \<and> status match = Active
         \<and> map_of (players match) u = Some player \<and> \<not> fst (validateTap now player ts) \<longrightarrow>
        handleTap now s sock u m ts = (s, [err sock ''Invalid tap detected''])) \<and>
   (\<forall>t a b c. Emit t (PlayerTapped a b c) \<in> set (snd (handleTap now s sock u m ts)) \<longrightarrow>
        (\<exists>match player. get_match s m = Some match \<and> status match = Active
            \<and> map_of (players match) u = Some player \<and> fst (validateTap now player ts)))"
  by (auto simp: handleTap_def err_def Let_def split: option.splits prod.splits bool.splits)

theorem handleTap_failures_witness:
  "get_match st_active 5 = None \<and>
   handleTap 2100 st_active ''s1'' ''A'' 5 (Num 2100) = (st_active, [err ''s1'' ''Match not found'']) \<and>
   get_match st_ended 0 = Some match_ended \<and> status match_ended = Finished \<and>
   handleTap 32050 st_ended ''s1'' ''A'' 0 (Num 32050) = (st_ended, [err ''s1'' ''Match not active'']) \<and>
   get_match st_active 0 = Some match_active \<and> status match_active = Active \<and>
   map_of (players match_active) ''Z'' = None \<and>
   handleTap 2100 st_active ''s9'' ''Z'' 0 (Num 2100) = (st_active, [err ''s9'' ''Player not in match'']) \<and>
   map_of (players match_active) ''A'' = Some alice \<and> \<not> fst (validateTap 2100 alice (Num 1000)) \<and>
   handleTap 2100 st_active ''s1'' ''A'' 0 (Num 1000) = (st_active, [err ''s1'' ''Invalid tap detected''])"
proof -
  have 1: "get_match st_active 5 = None" by (simp add: get_match_def st_active_def)
  have 2: "get_match st_ended 0 = Some match_ended \<and> status match_ended \<noteq> Active"
          "status match_ended = Finished"
    by (simp_all add: get_match_def st_ended_def st_active_def match_ended_def match_active_def)
  have 3: "get_match st_active 0 = Some match_active" "status match_active = Active"
          "map_of (players match_active) ''Z'' = None"
          "map_of (players match_active) ''A'' = Some alice"
    by (simp_all add: get_match_def st_active_def match_active_def)
  have 4: "\<not> fst (validateTap 2100 alice (Num 1000))"
    by (simp add: validateTap_def abs_diff_def js_gt_def TAP_VALIDATION_WINDOW_def Let_def)
  from 1 handleTap_failures[of st_active 5 2100 "''s1''" "''A''" "Num 2100"]
  have a: "handleTap 2100 st_active ''s1'' ''A'' 5 (Num 2100) = (st_active, [err ''s1'' ''Match not found''])"
    by blast
  from 2 handleTap_failures[of st_ended 0 32050 "''s1''" "''A''" "Num 32050"]
  have b: "handleTap 32050 st_ended ''s1'' ''A'' 0 (Num 32050) = (st_ended, [err ''s1'' ''Match not active''])"
    by blast
  from 3 handleTap_failures[of st_active 0 2100 "''s9''" "''Z''" "Num 2100"]
  have c: "handleTap 2100 st_active ''s9'' ''Z'' 0 (Num 2100) = (st_active, [err ''s9'' ''Player not in match''])"
    by blast
  from 3 4 handleTap_failures[of st_active 0 2100 "''s1''" "''A''" "Num 1000"]
  have d: "handleTap 2100 st_active ''s1'' ''A'' 0 (Num 1000) = (st_active, [err ''s1'' ''Invalid tap detected''])"
    by blast
  from 1 2 3 4 a b c d show ?thesis by simp
qed

text \<open>
  C9 does not hold as stated: \<open>validateTap\<close> returns a boolean, and \<open>handleTap\<close> reports
  every rejection with the same message.  In the state after A's accepted tap at 2100, a
  tap at server time 2150 with client timestamp 1000 (outside the skew window) and one
  with client timestamp 2150 (inside the window, but only 50 ms after the last accepted
  tap) produce the same single event.
\<close>

theorem invalid_tap_reason_counterexample:
  "\<bar>(2150::int) - 1000\<bar> > TAP_VALIDATION_WINDOW \<and>
   \<bar>(2150::int) - 2150\<bar> \<le> TAP_VALIDATION_WINDOW \<and>
   real_of_int (2150 - 2100) < 1000 / real_of_int MAX_TAPS_PER_SECOND \<and>
   handleTap 2150 st_tapped ''s1'' ''A'' 0 (Num 1000)
     = (st_tapped, [Emit (ToSocket ''s1'') (ErrorMsg ''Invalid tap detected'')]) \<and>
   handleTap 2150 st_tapped ''s1'' ''A'' 0 (Num 2150)
     = (st_tapped, [Emit (ToSocket ''s1'') (ErrorMsg ''Invalid tap detected'')])"
  by (simp add: model_defs example_defs)

text \<open>
  C9 as amended.  Every tap rejected by the validator, for an active match and a player
  on its roster, is reported to the submitting socket as one error event with the message
  "Invalid tap detected", whether the client timestamp was outside the skew window or the
  tap came less than 100 ms after the last accepted one; the state is unchanged.  The
  event does not carry the reason.
\<close>

theorem invalid_tap_report:
  assumes "get_match s m = Some match" and "status match = Active"
      and "map_of (players match) u = Some player"
      and "(\<exists>t. ts = Num t \<and> \<bar>now - t\<bar> > TAP_VALIDATION_WINDOW) \<or> now - lastTapTimestamp player < 100"
  shows "handleTap now s sock u m ts = (s, [Emit (ToSocket sock) (ErrorMsg ''Invalid tap detected'')])"
  using assms
  by (auto simp: handleTap_def err_def validateTap_def abs_diff_def js_gt_def
                 MAX_TAPS_PER_SECOND_def Let_def
           split: option.splits prod.splits bool.splits)

theorem invalid_tap_report_witness:
  "get_match st_tapped 0 = Some match_tapped \<and> status match_tapped = Active \<and>
   map_of (players match_tapped) ''A''
     = Some (alice\<lparr> taps := 1, lastTapTimestamp := 2100, validatedTaps := 1 \<rparr>) \<and>
   (2160::int) - 2100 < 100 \<and>
   handleTap 2160 st_tapped ''s1'' ''A'' 0 (Num 2160)
     = (st_tapped, [Emit (ToSocket ''s1'') (ErrorMsg ''Invalid tap detected'')])"
proof -
  let ?p = "alice\<lparr> taps := 1, lastTapTimestamp := 2100, validatedTaps := 1 \<rparr>"
  have 1: "get_match st_tapped 0 = Some match_tapped"
    by (simp add: get_match_def st_tapped_def st_active_def)
  have 2: "status match_tapped = Active" by (simp add: match_tapped_def match_active_def)
  have 3: "map_of (players match_tapped) ''A'' = Some ?p"
    by (simp add: match_tapped_def)
  have 4: "(\<exists>t. Num 2160 = Num t \<and> \<bar>(2160::int) - t\<bar> > TAP_VALIDATION_WINDOW)
           \<or> 2160 - lastTapTimestamp ?p < 100"
    by simp
  from invalid_tap_report[OF 1 2 3 4, of "''s1''"] 1 2 3 show ?thesis by simp
qed


section \<open>Winner and results\<close>

lemma find_append_cases:
  "find P (xs @ ys) = (case find P xs of Some a \<Rightarrow> Some a | None \<Rightarrow> find P ys)"
  by (induction xs) auto

lemma determine_winner_snoc: "determine_winner (ps @ [p]) = winner_step p (determine_winner ps)"
  by (simp add: determine_winner_def)

lemma determine_winner_Nil: "determine_winner [] = (-1, None)"
  by (simp add: determine_winner_def)

text \<open>The loop returns the greatest count and the first player, in roster order, that has it.\<close>

lemma determine_winner_find:
  "ps \<noteq> [] \<Longrightarrow>
   determine_winner ps =
     (int (Max (validatedTaps ` set ps)), find (\<lambda>p. validatedTaps p = Max (validatedTaps ` set ps)) ps)"
proof (induction ps rule: rev_induct)
  case Nil
  then show ?case by simp
next
  case (snoc x xs)
  show ?case
  proof (cases "xs = []")
    case True
    then show ?thesis by (simp add: determine_winner_def winner_step_def)
  next
    case False
    let ?M = "Max (validatedTaps ` set xs)"
    have ih: "determine_winner xs = (int ?M, find (\<lambda>p. validatedTaps p = ?M) xs)"
      using snoc.IH False by simp
    have fin: "finite (validatedTaps ` set xs)" and ne: "validatedTaps ` set xs \<noteq> {}"
      using False by auto
    have mx: "Max (validatedTaps ` set (xs @ [x])) = max (validatedTaps x) ?M"
      using fin ne by simp
    show ?thesis
    proof (cases "validatedTaps x > ?M")
      case True
      have "\<forall>p\<in>set xs. validatedTaps p \<noteq> validatedTaps x"
      proof
        fix p assume "p \<in> set xs"
        then have "validatedTaps p \<le> ?M" using fin by simp
        with True show "validatedTaps p \<noteq> validatedTaps x" by simp
      qed
      then have "find (\<lambda>p. validatedTaps p = validatedTaps x) xs = None"
        by (simp add: find_None_iff)
      with True ih mx show ?thesis
        by (simp add: determine_winner_snoc winner_step_def find_append_cases max_def)
    next
      case False
      have "?M \<in> validatedTaps ` set xs" using fin ne by (rule Max_in)
      then obtain q where "q \<in> set xs" "validatedTaps q = ?M" by auto
      then have "find (\<lambda>p. validatedTaps p = ?M) xs \<noteq> None"
        by (auto simp: find_None_iff)
      with False ih mx show ?thesis
        by (auto simp: determine_winner_snoc winner_step_def find_append_cases max_def)
    qed
  qed
qed

lemma first_max_index:
  assumes "ps \<noteq> []"
  shows "\<exists>i<length ps.
           find (\<lambda>p. validatedTaps p = Max (validatedTaps ` set ps)) ps = Some (ps ! i) \<and>
           (\<forall>j<length ps. validatedTaps (ps ! j) \<le> validatedTaps (ps ! i)) \<and>
           (\<forall>j<i. validatedTaps (ps ! j) < validatedTaps (ps ! i))"
proof -
  let ?M = "Max (validatedTaps ` set ps)"
  have fin: "finite (validatedTaps ` set ps)" by simp
  have le: "validatedTaps p \<le> ?M" if "p \<in> set ps" for p using that fin by simp
  have "?M \<in> validatedTaps ` set ps" using assms by (intro Max_in) auto
  then obtain q where "q \<in> set ps" "validatedTaps q = ?M" by auto
  then have "find (\<lambda>p. validatedTaps p = ?M) ps \<noteq> None" by (auto simp: find_None_iff)
  then obtain w where w: "find (\<lambda>p. validatedTaps p = ?M) ps = Some w" by blast
  then obtain i where i: "i < length ps" "validatedTaps (ps ! i) = ?M" "w = ps ! i"
      "\<forall>j<i. validatedTaps (ps ! j) \<noteq> ?M"
    unfolding find_Some_iff by blast
  have a: "validatedTaps (ps ! j) \<le> validatedTaps (ps ! i)" if "j < length ps" for j
    using le[of "ps ! j"] that i(2) by simp
  have b: "validatedTaps (ps ! j) < validatedTaps (ps ! i)" if "j < i" for j
  proof -
    from that i(1) have "j < length ps" by simp
    from a[OF this] i(4) that i(2) show ?thesis by (simp add: order_less_le)
  qed
  from w i a b show ?thesis by blast
qed

lemma sort_results_desc: "sorted_wrt (\<lambda>a b. r_taps a \<ge> r_taps b) (sort_results rs)"
proof -
  have "sorted (map (\<lambda>r. - int (r_taps r)) (sort_results rs))"
    unfolding sort_results_def by (rule sorted_sort_key)
  then show ?thesis by (simp add: sorted_map)
qed

lemma sort_results_stable:
  "filter (\<lambda>r. r_taps r = k) (sort_results rs) = filter (\<lambda>r. r_taps r = k) rs"
proof -
  have "filter (\<lambda>r. - int (r_taps r) = - int k) (sort_key (\<lambda>r. - int (r_taps r)) rs)
        = filter (\<lambda>r. - int (r_taps r) = - int k) rs"
    by (rule sort_key_stable)
  then show ?thesis by (simp add: sort_results_def)
qed

text \<open>\<open>endMatch\<close> on a match that is in the map, written out.\<close>

lemma endMatch_live:
  assumes "get_match s m = Some match"
  shows "endMatch now s m =
     (let w = map_option pid (snd (determine_winner (map snd (players match))));
          w' = (case w of None \<Rightarrow> winner match | Some i \<Rightarrow> Some i);
          m2 = match\<lparr> status := Finished, endTime := Some now, winner := w' \<rparr>;
          results = sort_results (map (mk_result w') (map snd (players match)))
      in (s\<lparr> matchObjs := (matchObjs s)(m \<mapsto> m2), timers := timers s @ [(now + 5000, CleanupTimer m)] \<rparr>,
          map (\<lambda>p. Emit (ToSocket (socketId p)) (MatchEnded m results w')) (map snd (players match))))"
  using assms by (simp add: endMatch_def put_match_def Let_def split: option.splits)

lemma endMatch_dead: "get_match s m = None \<Longrightarrow> endMatch now s m = (s, [])"
  by (simp add: endMatch_def)

lemma get_match_live: "get_match s m = Some x \<Longrightarrow> m \<in> set (matches s)"
  by (auto simp: get_match_def split: if_splits)

text \<open>
  C2 does not hold as stated: \<open>maxTaps\<close> starts at \<open>-1\<close>, so a count of zero already
  beats it.  In the run where A and B are matched, nobody taps and the end timer fires,
  both counts are zero and the winner is A.
\<close>

theorem zero_taps_winner_counterexample:
  "map_option (\<lambda>s. (status_of s 0, counts_of s 0, winner_of s 0)) (state_after tr_ended)
     = Some (Some Finished, Some [0, 0], Some (Some ''A''))"
  by (simp add: model_defs example_defs)

text \<open>
  C2 as amended.  After \<open>endMatch\<close> on a match with a non-empty roster the winner is
  non-null: it is the first player, in roster order, whose \<open>validatedTaps\<close> equals the
  greatest count on the roster, also when every count is zero.  When the roster is empty
  \<open>endMatch\<close> leaves \<open>winner\<close> as it was (null for a match that was never ended before).
\<close>

theorem endMatch_winner_nonempty:
  assumes "get_match s m = Some match"
  shows "(players match \<noteq> [] \<longrightarrow>
            (\<exists>w. find (\<lambda>p. validatedTaps p = Max (validatedTaps ` set (map snd (players match))))
                        (map snd (players match)) = Some w
                 \<and> winner_of (fst (endMatch now s m)) m = Some (Some (pid w))))
       \<and> (players match = [] \<longrightarrow> winner_of (fst (endMatch now s m)) m = Some (winner match))"
proof -
  have live: "m \<in> set (matches s)" using assms by (rule get_match_live)
  show ?thesis
  proof (cases "players match = []")
    case True
    then show ?thesis
      using live
      by (simp add: endMatch_live[OF assms] determine_winner_Nil get_match_def winner_of_def Let_def)
  next
    case False
    then have ne: "map snd (players match) \<noteq> []" by simp
    from first_max_index[OF ne] obtain w where
      w: "find (\<lambda>p. validatedTaps p = Max (validatedTaps ` set (map snd (players match))))
             (map snd (players match)) = Some w" by blast
    show ?thesis
      using live False w
      by (simp add: endMatch_live[OF assms] determine_winner_find[OF ne] get_match_def
                    winner_of_def Let_def)
  qed
qed

theorem endMatch_winner_nonempty_witness:
  "get_match st_active 0 = Some match_active \<and> players match_active \<noteq> [] \<and>
   map (\<lambda>e. validatedTaps (snd e)) (players match_active) = [0, 0] \<and>
   winner_of (fst (endMatch 32010 st_active 0)) 0 = Some (Some ''A'')"
proof -
  have 1: "get_match st_active 0 = Some match_active" by (simp add: get_match_def st_active_def)
  have 2: "players match_active \<noteq> []" by (simp add: match_active_def)
  have 3: "find (\<lambda>p. validatedTaps p = Max (validatedTaps ` set (map snd (players match_active))))
                (map snd (players match_active)) = Some alice"
    by (simp add: match_active_def alice_def bob_def)
  from endMatch_winner_nonempty[OF 1, of 32010] 2 3
  have "winner_of (fst (endMatch 32010 st_active 0)) 0 = Some (Some (pid alice))" by auto
  with 1 2 show ?thesis by (simp add: match_active_def alice_def bob_def)
qed

lemma createMatch_roster:
  assumes "MATCH_SIZE \<le> length (queue q)" and "distinct (map fst (queue q))"
      and "\<forall>e\<in>set (queue q). pid (snd e) = fst e"
  shows "map_option players (get_match (fst (createMatch t q)) (nextMatchId q))
           = Some (take MATCH_SIZE (queue q))"
proof -
  from assms(1) obtain e1 e2 rest where q: "queue q = e1 # e2 # rest"
    by (cases "queue q"; cases "tl (queue q)") (auto simp: MATCH_SIZE_def)
  from assms(2,3) q have k: "fst e1 \<noteq> fst e2" "pid (snd e1) = fst e1" "pid (snd e2) = fst e2"
    by auto
  have t: "take MATCH_SIZE (queue q) = [e1, e2]" by (simp add: q MATCH_SIZE_def numeral_2_eq_2)
  have r: "fst (fold (take_player (nextMatchId q)) (take MATCH_SIZE (map snd (queue q))) ([], q))
           = [e1, e2]"
    using k by (simp add: q MATCH_SIZE_def numeral_2_eq_2 take_player_def)
  have f: "matches (snd (fold (take_player (nextMatchId q)) (take MATCH_SIZE (map snd (queue q))) ([], q)))
           = matches q"
    by (simp add: q MATCH_SIZE_def numeral_2_eq_2 take_player_def)
  have "\<not> length (queue q) < MATCH_SIZE" using assms(1) by simp
  then show ?thesis
    unfolding t by (simp add: createMatch_def Let_def split_beta put_match_def get_match_def r f)
qed

text \<open>The queue and its index stay in step along every run.\<close>

lemma update_fresh: "k \<notin> fst ` set al \<Longrightarrow> AList.update k v al = al @ [(k, v)]"
  by (induction al) auto

lemma keys_delete: "fst ` set (AList.delete k al) = fst ` set al - {k}"
  by (induction al) auto

lemma set_delete_subset: "set (AList.delete k al) \<subseteq> set al"
  by (induction al) auto

lemma queue_ok_delete:
  assumes "queue_ok s"
  shows "queue_ok (s\<lparr> queue := AList.delete k (queue s), playerQueue := (playerQueue s)(k := None) \<rparr>)"
proof -
  have "distinct (map fst (AList.delete k (queue s)))"
    using assms by (simp add: queue_ok_def distinct_delete)
  moreover have "\<forall>e\<in>set (AList.delete k (queue s)). pid (snd e) = fst e"
    using assms set_delete_subset[of k "queue s"] by (auto simp: queue_ok_def)
  moreover have "fst ` set (AList.delete k (queue s)) = dom ((playerQueue s)(k := None))"
    using assms by (simp add: keys_delete queue_ok_def)
  ultimately show ?thesis by (simp add: queue_ok_def)
qed

lemma queue_ok_cong:
  "queue s' = queue s \<Longrightarrow> playerQueue s' = playerQueue s \<Longrightarrow> queue_ok s' = queue_ok s"
  by (simp add: queue_ok_def)

lemma endMatch_queue:
  "queue (fst (endMatch now s m)) = queue s \<and> playerQueue (fst (endMatch now s m)) = playerQueue s"
  by (simp add: endMatch_def put_match_def Let_def split: option.splits)

lemma startMatch_queue:
  "queue (fst (startMatch now s m)) = queue s \<and> playerQueue (fst (startMatch now s m)) = playerQueue s"
  by (simp add: startMatch_def put_match_def Let_def split: option.splits)

lemma handleTap_queue:
  "queue (fst (handleTap now s sock u m ts)) = queue s \<and>
   playerQueue (fst (handleTap now s sock u m ts)) = playerQueue s"
  by (simp add: handleTap_def put_match_def Let_def split: option.splits prod.splits bool.splits)

lemma handlePlayerReady_queue:
  "queue (fst (handlePlayerReady now s sock u m)) = queue s \<and>
   playerQueue (fst (handlePlayerReady now s sock u m)) = playerQueue s"
  by (simp add: handlePlayerReady_def put_match_def startMatch_queue Let_def split: option.splits)

lemma cleanup_queue: "queue (cleanup s m) = queue s \<and> playerQueue (cleanup s m) = playerQueue s"
  by (simp add: cleanup_def split: option.splits)

lemma drop_from_match_queue:
  "queue (fst (drop_from_match now sock m e acc)) = queue (fst acc) \<and>
   playerQueue (fst (drop_from_match now sock m e acc)) = playerQueue (fst acc)"
  by (simp add: drop_from_match_def put_match_def endMatch_queue Let_def split_beta split: option.splits)

lemma fold_drop_from_match_queue:
  "queue (fst (fold (drop_from_match now sock m) es acc)) = queue (fst acc) \<and>
   playerQueue (fst (fold (drop_from_match now sock m) es acc)) = playerQueue (fst acc)"
  by (induction es arbitrary: acc) (simp_all add: drop_from_match_queue)

lemma disconnect_match_queue:
  "queue (fst (disconnect_match now sock m acc)) = queue (fst acc) \<and>
   playerQueue (fst (disconnect_match now sock m acc)) = playerQueue (fst acc)"
  by (simp add: disconnect_match_def fold_drop_from_match_queue split: option.splits)

lemma fold_disconnect_match_queue:
  "queue (fst (fold (disconnect_match now sock) ms acc)) = queue (fst acc) \<and>
   playerQueue (fst (fold (disconnect_match now sock) ms acc)) = playerQueue (fst acc)"
  by (induction ms arbitrary: acc) (simp_all add: disconnect_match_queue)

lemma queue_ok_drop_queued: "queue_ok s \<Longrightarrow> queue_ok (drop_queued sock e s)"
  by (simp add: drop_queued_def queue_ok_delete)

lemma queue_ok_fold_drop_queued: "queue_ok s \<Longrightarrow> queue_ok (fold (drop_queued sock) es s)"
  by (induction es arbitrary: s) (simp_all add: queue_ok_drop_queued)

lemma queue_ok_handleDisconnect: "queue_ok s \<Longrightarrow> queue_ok (fst (handleDisconnect now s sock))"
  using queue_ok_fold_drop_queued[of s sock "queue s"]
  by (simp add: handleDisconnect_def
        queue_ok_cong[OF conjunct1[OF fold_disconnect_match_queue] conjunct2[OF fold_disconnect_match_queue]])

lemma queue_ok_handleLeaveQueue: "queue_ok s \<Longrightarrow> queue_ok (fst (handleLeaveQueue s sock u))"
  by (simp add: handleLeaveQueue_def queue_ok_delete)

lemma queue_ok_take_player:
  assumes "queue_ok (snd acc)"
  shows "queue_ok (snd (take_player m p acc))"
proof -
  have "queue_ok ((snd acc)\<lparr> queue := AList.delete (pid p) (queue (snd acc)),
                            playerQueue := (playerQueue (snd acc))(pid p := None) \<rparr>)"
    using assms by (rule queue_ok_delete)
  then show ?thesis by (simp add: take_player_def queue_ok_def)
qed

lemma queue_ok_fold_take_player:
  "queue_ok (snd acc) \<Longrightarrow> queue_ok (snd (fold (take_player m) ps acc))"
  by (induction ps arbitrary: acc) (simp_all add: queue_ok_take_player)

lemma queue_ok_createMatch:
  assumes "queue_ok s"
  shows "queue_ok (fst (createMatch now s))"
proof (cases "length (queue s) < MATCH_SIZE")
  case True
  then show ?thesis using assms by (simp add: createMatch_def)
next
  case False
  have "queue_ok (snd (fold (take_player (nextMatchId s)) (take MATCH_SIZE (map snd (queue s))) ([], s)))"
    using assms by (intro queue_ok_fold_take_player) simp
  then show ?thesis using False
    by (simp add: createMatch_def Let_def split_beta put_match_def queue_ok_def)
qed

lemma joined_queue:
  assumes "queue_ok s" and "playerQueue s u = None"
  shows "AList.update u pl (queue s) = queue s @ [(u, pl)]"
proof -
  have "u \<notin> fst ` set (queue s)" using assms by (auto simp: queue_ok_def)
  then show ?thesis by (rule update_fresh)
qed

lemma queue_ok_joined:
  assumes "queue_ok s" and "playerQueue s u = None" and "pid pl = u"
  shows "queue_ok (s\<lparr> queue := AList.update u pl (queue s), playerQueue := (playerQueue s)(u \<mapsto> v) \<rparr>)"
proof -
  have nk: "u \<notin> fst ` set (queue s)" using assms(1,2) by (auto simp: queue_ok_def)
  show ?thesis unfolding joined_queue[OF assms(1,2)] using assms nk by (auto simp: queue_ok_def)
qed

lemma queue_ok_handleJoinQueue:
  assumes "queue_ok s"
  shows "queue_ok (fst (handleJoinQueue now s sock u n))"
proof (cases "playerToMatch s u \<noteq> None \<or> playerQueue s u \<noteq> None")
  case True
  then show ?thesis using assms by (auto simp: handleJoinQueue_def)
next
  case False
  let ?pl = "\<lparr> pid = u, socketId = sock, username = n, taps = 0, isReady = False,
                       lastTapTimestamp = 0, validatedTaps = 0 \<rparr>"
  let ?s1 = "s\<lparr> queue := AList.update u ?pl (queue s), playerQueue := (playerQueue s)(u \<mapsto> ''main'') \<rparr>"
  have q1: "queue_ok ?s1" using False by (intro queue_ok_joined[OF assms]) simp_all
  have q2: "queue_ok (fst (createMatch now ?s1))" using q1 by (rule queue_ok_createMatch)
  show ?thesis using False q2 by (simp add: handleJoinQueue_def Let_def split_beta q1)
qed

lemma queue_ok_fire:
  assumes "fire now s i = Some (s', out)" and "queue_ok s"
  shows "queue_ok s'"
proof -
  let ?s1 = "s\<lparr> timers := take i (timers s) @ drop (Suc i) (timers s) \<rparr>"
  have q: "queue_ok ?s1" using assms(2) by (simp add: queue_ok_def)
  have r: "(s', out) = (case snd (timers s ! i) of
                   StartTimer m \<Rightarrow> startMatch now ?s1 m
                 | EndTimer m \<Rightarrow> endMatch now ?s1 m
                 | CleanupTimer m \<Rightarrow> (cleanup ?s1 m, []))"
    using assms(1) by (simp add: fire_def Let_def split: if_splits)
  show ?thesis
  proof (cases "snd (timers s ! i)")
    case (StartTimer m)
    with r have "startMatch now ?s1 m = (s', out)" by simp
    then have "s' = fst (startMatch now ?s1 m)" by simp
    then show ?thesis using q
      by (simp add: queue_ok_cong[OF conjunct1[OF startMatch_queue] conjunct2[OF startMatch_queue]])
  next
    case (EndTimer m)
    with r have "endMatch now ?s1 m = (s', out)" by simp
    then have "s' = fst (endMatch now ?s1 m)" by simp
    then show ?thesis using q
      by (simp add: queue_ok_cong[OF conjunct1[OF endMatch_queue] conjunct2[OF endMatch_queue]])
  next
    case (CleanupTimer m)
    with r have "s' = cleanup ?s1 m" by simp
    then show ?thesis using q
      by (simp add: queue_ok_cong[OF conjunct1[OF cleanup_queue] conjunct2[OF cleanup_queue]])
  qed
qed

lemma queue_ok_step:
  assumes "step now ev s = Some (s', out)" and "queue_ok s"
  shows "queue_ok s'"
proof -
  let ?s0 = "s\<lparr> clock := now \<rparr>"
  have q: "queue_ok ?s0" using assms(2) by (simp add: queue_ok_def)
  show ?thesis
  proof (cases ev)
    case (JoinQueue a b c)
    with assms(1) have "s' = fst (handleJoinQueue now ?s0 a b c)"
      by (auto simp: step_def Let_def split: if_splits)
    then show ?thesis using q by (simp add: queue_ok_handleJoinQueue)
  next
    case (LeaveQueue a b)
    with assms(1) have "s' = fst (handleLeaveQueue ?s0 a b)"
      by (auto simp: step_def Let_def split: if_splits)
    then show ?thesis using q by (simp add: queue_ok_handleLeaveQueue)
  next
    case (PlayerReady a b c)
    with assms(1) have "s' = fst (handlePlayerReady now ?s0 a b c)"
      by (auto simp: step_def Let_def split: if_splits)
    then show ?thesis using q
      by (simp add: queue_ok_cong[OF conjunct1[OF handlePlayerReady_queue] conjunct2[OF handlePlayerReady_queue]])
  next
    case (Tap a b c d)
    with assms(1) have "s' = fst (handleTap now ?s0 a b c d)"
      by (auto simp: step_def Let_def split: if_splits)
    then show ?thesis using q
      by (simp add: queue_ok_cong[OF conjunct1[OF handleTap_queue] conjunct2[OF handleTap_queue]])
  next
    case (Disconnect a)
    with assms(1) have "s' = fst (handleDisconnect now ?s0 a)"
      by (auto simp: step_def Let_def split: if_splits)
    then show ?thesis using q by (simp add: queue_ok_handleDisconnect)
  next
    case (TimerFires i)
    with assms(1) have "fire now ?s0 i = Some (s', out)"
      by (auto simp: step_def Let_def split: if_splits)
    then show ?thesis using q by (rule queue_ok_fire)
  qed
qed

lemma queue_ok_run: "run es s = Some (s', out) \<Longrightarrow> queue_ok s \<Longrightarrow> queue_ok s'"
proof (induction es arbitrary: s out)
  case Nil
  then show ?case by simp
next
  case (Cons e es)
  obtain now ev where e: "e = (now, ev)" by (cases e)
  from Cons.prems(1) e obtain s1 out1 s2 out2 where
    st: "step now ev s = Some (s1, out1)" and rn: "run es s1 = Some (s2, out2)" and eq: "s' = s2"
    by (auto split: option.splits prod.splits)
  from queue_ok_step[OF st Cons.prems(2)] have "queue_ok s1" .
  from Cons.IH[OF _ this] rn eq show ?case by simp
qed

lemma queue_ok_init: "queue_ok init"
  by (simp add: queue_ok_def init_def)

lemma join_completes_pair:
  assumes "run es init = Some (q, out)" and "step t (JoinQueue sock u n) q = Some (q', out')"
      and "playerToMatch q u = None" and "playerQueue q u = None"
      and "Suc (length (queue q)) = MATCH_SIZE"
  shows "map_option players (get_match q' (nextMatchId q))
           = Some (queue q @ [(u, \<lparr> pid = u, socketId = sock, username = n, taps = 0, isReady = False,
                                     lastTapTimestamp = 0, validatedTaps = 0 \<rparr>)])"
proof -
  define pl where "pl = \<lparr> pid = u, socketId = sock, username = n, taps = 0, isReady = False,
               lastTapTimestamp = 0, validatedTaps = 0 \<rparr>"
  define q0 where "q0 = q\<lparr> clock := t \<rparr>"
  define s1 where "s1 = q0\<lparr> queue := AList.update u pl (queue q0), playerQueue := (playerQueue q0)(u \<mapsto> ''main'') \<rparr>"
  have ok: "queue_ok q0" using queue_ok_run[OF assms(1) queue_ok_init] by (simp add: queue_ok_def q0_def)
  have pq: "playerQueue q0 u = None" "playerToMatch q0 u = None" using assms(3,4) by (simp_all add: q0_def)
  have pid: "pid pl = u" by (simp add: pl_def)
  have ok1: "queue_ok s1" unfolding s1_def using ok pq(1) pid by (rule queue_ok_joined)
  have qs1: "queue s1 = queue q @ [(u, pl)]"
    using joined_queue[OF ok pq(1), of pl] by (simp add: s1_def q0_def)
  have len: "length (queue s1) = MATCH_SIZE" using qs1 assms(5) by simp
  have nx: "nextMatchId s1 = nextMatchId q" by (simp add: s1_def q0_def)
  have q': "q' = fst (handleJoinQueue t q0 sock u n)"
    using assms(2) by (auto simp: step_def Let_def q0_def split: if_splits)
  have "handleJoinQueue t q0 sock u n =
          (let (s2, out2) = createMatch t s1
           in (s2, [Emit (ToSocket sock) (QueueJoined (length (queue s1)))] @ out2))"
    using pq len unfolding handleJoinQueue_def Let_def s1_def pl_def by simp
  then have f: "fst (handleJoinQueue t q0 sock u n) = fst (createMatch t s1)"
    by (simp add: split_beta)
  have "map_option players (get_match (fst (createMatch t s1)) (nextMatchId s1))
           = Some (take MATCH_SIZE (queue s1))"
    using ok1 len by (intro createMatch_roster) (simp_all add: queue_ok_def)
  then show ?thesis using q' f len nx qs1 by (simp add: pl_def)
qed


section \<open>Repeated endMatch and clean-up\<close>

lemma fold_delete_eq:
  "fold (\<lambda>player m. m(pid player := None)) ps f = (\<lambda>k. if k \<in> pid ` set ps then None else f k)"
  by (induction ps arbitrary: f) (auto simp: fun_eq_iff)

lemma cleanup_idem: "cleanup (cleanup s m) m = cleanup s m"
  by (cases "matchObjs s m") (simp_all add: cleanup_def fold_delete_eq fun_eq_iff)

text \<open>
  C4 does not hold as stated: \<open>endMatch\<close> has no status guard.  In the run where both
  players leave the active match at 30000 and 30001, \<open>handleDisconnect\<close> calls
  \<open>endMatch\<close> at 30001 (empty roster, clean-up due at 35001), and the end timer calls it
  again at 32010: the second call overwrites \<open>endTime\<close> (30001 becomes 32010) and
  schedules a second clean-up (due at 37010).
\<close>

theorem endMatch_second_call_counterexample:
  "map_option (\<lambda>s. (status_of s 0, roster_of s 0, endTime_of s 0, timers s)) (state_after tr_late_leave)
     = Some (Some Finished, Some [], Some (Some 30001),
             [(32010, EndTimer 0), (35001, CleanupTimer 0)]) \<and>
   map_option (\<lambda>s. (status_of s 0, roster_of s 0, endTime_of s 0, timers s))
              (state_after (tr_late_leave @ [(32010, TimerFires 0)]))
     = Some (Some Finished, Some [], Some (Some 32010),
             [(35001, CleanupTimer 0), (37010, CleanupTimer 0)])"
  by (simp add: model_defs example_defs)

text \<open>
  C4 as amended.  An \<open>endMatch\<close> call on a match that is still in the map and is already
  finished is not a no-op, whatever happened since the match was finished: it sets
  \<open>endTime\<close> to the time of this call and schedules one more clean-up, so the state
  changes; the match stays finished.  When the roster is empty at that call (all players
  have disconnected), nothing else changes: roster and winner stay as they are and no
  event is emitted.  \<open>endMatch\<close> changes nothing and emits nothing when the match id is
  not in the map (as after clean-up).  The clean-up is idempotent: running it twice in a
  row gives the same state as running it once.
\<close>

theorem endMatch_on_finished:
  assumes "get_match s m = Some match" and "status match = Finished"
  shows "fst (endMatch t s m) \<noteq> s
       \<and> timers (fst (endMatch t s m)) = timers s @ [(t + 5000, CleanupTimer m)]
       \<and> endTime_of (fst (endMatch t s m)) m = Some (Some t)
       \<and> status_of (fst (endMatch t s m)) m = Some Finished
       \<and> (players match = [] \<longrightarrow>
            endMatch t s m = (s\<lparr> matchObjs := (matchObjs s)(m \<mapsto> match\<lparr> endTime := Some t \<rparr>),
                                 timers := timers s @ [(t + 5000, CleanupTimer m)] \<rparr>, []))
       \<and> (\<forall>s' m'. get_match s' m' = None \<longrightarrow> endMatch t s' m' = (s', []))
       \<and> (\<forall>s' m'. cleanup (cleanup s' m') m' = cleanup s' m')"
proof -
  have live: "m \<in> set (matches s)" using assms(1) by (rule get_match_live)
  have tm: "timers (fst (endMatch t s m)) = timers s @ [(t + 5000, CleanupTimer m)]"
    by (simp add: endMatch_live[OF assms(1)] Let_def)
  then have "timers (fst (endMatch t s m)) \<noteq> timers s" by simp
  then have ne: "fst (endMatch t s m) \<noteq> s" by auto
  have et: "endTime_of (fst (endMatch t s m)) m = Some (Some t)"
    using live by (simp add: endMatch_live[OF assms(1)] Let_def endTime_of_def get_match_def)
  have st: "status_of (fst (endMatch t s m)) m = Some Finished"
    using live by (simp add: endMatch_live[OF assms(1)] Let_def status_of_def get_match_def)
  have rec: "match\<lparr> status := Finished, endTime := Some t, winner := winner match \<rparr>
             = match\<lparr> endTime := Some t \<rparr>"
    using assms(2) by simp
  have em: "endMatch t s m = (s\<lparr> matchObjs := (matchObjs s)(m \<mapsto> match\<lparr> endTime := Some t \<rparr>),
                                 timers := timers s @ [(t + 5000, CleanupTimer m)] \<rparr>, [])"
    if "players match = []"
    using that rec by (simp add: endMatch_live[OF assms(1)] Let_def determine_winner_Nil)
  from ne tm et st em show ?thesis by (simp add: cleanup_idem endMatch_dead)
qed

theorem endMatch_on_finished_witness:
  "state_after tr_late_leave = Some st_left \<and>
   get_match st_left 0 = Some match_left \<and> status match_left = Finished \<and>
   players match_left = [] \<and>
   endTime_of st_left 0 = Some (Some 30001) \<and>
   endTime_of (fst (endMatch 32010 st_left 0)) 0 = Some (Some 32010) \<and>
   snd (endMatch 32010 st_left 0) = [] \<and>
   timers (fst (endMatch 32010 st_left 0))
     = [(32010, EndTimer 0), (35001, CleanupTimer 0), (37010, CleanupTimer 0)] \<and>
   get_match st_left 5 = None \<and> endMatch 32010 st_left 5 = (st_left, [])"
proof -
  have 1: "get_match st_left 0 = Some match_left" by (simp add: get_match_def st_left_def)
  have 2: "status match_left = Finished" "players match_left = []"
    by (simp_all add: match_left_def)
  have 3: "get_match st_left 5 = None" by (simp add: get_match_def st_left_def)
  have 4: "endTime_of st_left 0 = Some (Some 30001)"
    by (simp add: endTime_of_def get_match_def st_left_def match_left_def)
  have 5: "timers st_left = [(32010, EndTimer 0), (35001, CleanupTimer 0)]"
    by (simp add: st_left_def)
  note inst = endMatch_on_finished[OF 1 2(1), of 32010]
  from inst have a: "endTime_of (fst (endMatch 32010 st_left 0)) 0 = Some (Some 32010)" by blast
  from inst 2(2) have b: "snd (endMatch 32010 st_left 0) = []" by simp
  from inst have c: "timers (fst (endMatch 32010 st_left 0)) = timers st_left @ [(32010 + 5000, CleanupTimer 0)]"
    by blast
  from inst 3 have d: "endMatch 32010 st_left 5 = (st_left, [])" by blast
  from st_left_reached 1 2 3 4 a b c d show ?thesis by (simp add: 5)
qed


section \<open>Invariants of the event loop\<close>

lemma quiet_refl: "quiet s s"
  by (auto simp: quiet_def split: option.splits)

lemma quiet_NoneD: "quiet s s' \<Longrightarrow> matchObjs s m = None \<Longrightarrow> matchObjs s' m = None"
  unfolding quiet_def by (elim conjE, erule allE[of _ m], simp)

lemma quiet_SomeD:
  "quiet s s' \<Longrightarrow> matchObjs s m = Some a \<Longrightarrow>
   \<exists>b. matchObjs s' m = Some b \<and> (status b = status a \<or> status b = Active \<or> status b = Finished)"
  unfolding quiet_def by (elim conjE, erule allE[of _ m], simp)

lemma quiet_trans:
  assumes ab: "quiet a b" and bc: "quiet b c"
  shows "quiet a c"
proof -
  have d1: "dom (playerQueue c) \<subseteq> dom (playerQueue a)"
    using ab bc unfolding quiet_def by blast
  have d2: "dom (playerToMatch c) \<subseteq> dom (playerToMatch a)"
    using ab bc unfolding quiet_def by blast
  have d3: "nextMatchId c = nextMatchId a"
    using ab bc unfolding quiet_def by simp
  have d4: "case matchObjs a m of
             None \<Rightarrow> matchObjs c m = None
           | Some x \<Rightarrow> (\<exists>z. matchObjs c m = Some z \<and>
                            (status z = status x \<or> status z = Active \<or> status z = Finished))" for m
  proof (cases "matchObjs a m")
    case None
    then have "matchObjs c m = None" using ab bc by (blast dest: quiet_NoneD)
    with None show ?thesis by simp
  next
    case (Some x)
    from quiet_SomeD[OF ab Some] obtain y where
      y: "matchObjs b m = Some y" "status y = status x \<or> status y = Active \<or> status y = Finished" by blast
    from quiet_SomeD[OF bc y(1)] obtain z where
      z: "matchObjs c m = Some z" "status z = status y \<or> status z = Active \<or> status z = Finished" by blast
    from y(2) z(2) have "status z = status x \<or> status z = Active \<or> status z = Finished" by auto
    with Some z(1) show ?thesis by simp
  qed
  show ?thesis unfolding quiet_def using d1 d2 d3 d4 by blast
qed

lemma get_match_SomeD: "get_match s m = Some x \<Longrightarrow> matchObjs s m = Some x"
  by (auto simp: get_match_def split: if_splits)

lemma quiet_endMatch: "quiet s (fst (endMatch now s m))"
  by (auto simp: endMatch_def put_match_def quiet_def Let_def dest: get_match_SomeD split: option.splits)

lemma quiet_startMatch: "quiet s (fst (startMatch now s m))"
  by (auto simp: startMatch_def put_match_def quiet_def Let_def dest: get_match_SomeD split: option.splits)

lemma quiet_handleTap: "quiet s (fst (handleTap now s sock u m ts))"
  by (auto simp: handleTap_def put_match_def quiet_def Let_def dest: get_match_SomeD
           split: option.splits prod.splits bool.splits)

lemma quiet_put_players:
  "matchObjs s m = Some x \<Longrightarrow> quiet s (put_match s m (x\<lparr> players := ps \<rparr>))"
  by (auto simp: put_match_def quiet_def split: option.splits)

lemma quiet_handlePlayerReady: "quiet s (fst (handlePlayerReady now s sock u m))"
proof (cases "get_match s m")
  case None
  then show ?thesis by (simp add: handlePlayerReady_def quiet_refl)
next
  case (Some x)
  show ?thesis
  proof (cases "map_of (players x) u")
    case None
    with Some show ?thesis by (simp add: handlePlayerReady_def quiet_refl)
  next
    case (Some p)
    let ?s1 = "put_match s m (x\<lparr> players := AList.update u (p\<lparr> isReady := True \<rparr>) (players x) \<rparr>)"
    have q1: "quiet s ?s1" using \<open>get_match s m = Some x\<close> by (intro quiet_put_players get_match_SomeD)
    have q2: "quiet s (fst (startMatch now ?s1 m))" using q1 quiet_startMatch by (rule quiet_trans)
    show ?thesis using \<open>get_match s m = Some x\<close> Some q1 q2
      by (simp add: handlePlayerReady_def Let_def)
  qed
qed

lemma quiet_cleanup: "quiet s (cleanup s m)"
  by (auto simp: cleanup_def quiet_def fold_delete_eq split: option.splits if_splits)

lemma quiet_handleLeaveQueue: "quiet s (fst (handleLeaveQueue s sock u))"
  by (auto simp: handleLeaveQueue_def quiet_def split: option.splits)

lemma quiet_drop_queued: "quiet s (drop_queued sock e s)"
  by (auto simp: drop_queued_def quiet_def split: option.splits)

lemma quiet_fold_state:
  assumes "\<And>x a. quiet a (f x a)"
  shows "quiet s (fold f xs s)"
proof (induction xs arbitrary: s)
  case Nil
  show ?case by (simp add: quiet_refl)
next
  case (Cons x xs)
  have "quiet s (f x s)" by (rule assms)
  moreover have "quiet (f x s) (fold f xs (f x s))" by (rule Cons.IH)
  ultimately show ?case by (simp add: quiet_trans)
qed

lemma quiet_fold_pair:
  assumes "\<And>x a. quiet (fst a) (fst (f x a))"
  shows "quiet (fst acc) (fst (fold f xs acc))"
proof (induction xs arbitrary: acc)
  case Nil
  show ?case by (simp add: quiet_refl)
next
  case (Cons x xs)
  have "quiet (fst acc) (fst (f x acc))" by (rule assms)
  moreover have "quiet (fst (f x acc)) (fst (fold f xs (f x acc)))" by (rule Cons.IH)
  ultimately show ?case by (simp add: quiet_trans)
qed

lemma quiet_then_end: "quiet s s1 \<Longrightarrow> quiet s (fst (endMatch now s1 m))"
  by (rule quiet_trans[OF _ quiet_endMatch])

lemma quiet_put_drop:
  "matchObjs s m = Some x \<Longrightarrow>
   quiet s ((put_match s m (x\<lparr> players := ps \<rparr>))\<lparr> playerToMatch := (playerToMatch s)(k := None) \<rparr>)"
  by (auto simp: put_match_def quiet_def split: option.splits)

lemma quiet_drop_from_match: "quiet (fst acc) (fst (drop_from_match now sock m e acc))"
proof (cases "socketId (snd e) = sock")
  case False
  then show ?thesis by (simp add: drop_from_match_def quiet_refl)
next
  case True
  show ?thesis
  proof (cases "matchObjs (fst acc) m")
    case None
    with True show ?thesis by (simp add: drop_from_match_def quiet_refl)
  next
    case (Some x)
    show ?thesis using True Some
      by (auto simp: drop_from_match_def Let_def split_beta intro!: quiet_then_end quiet_put_drop)
  qed
qed

lemma quiet_disconnect_match: "quiet (fst acc) (fst (disconnect_match now sock m acc))"
  by (auto simp: disconnect_match_def quiet_refl intro: quiet_fold_pair quiet_drop_from_match
           split: option.splits)

lemma quiet_handleDisconnect: "quiet s (fst (handleDisconnect now s sock))"
proof -
  have q1: "quiet s (fold (drop_queued sock) (queue s) s)"
    by (rule quiet_fold_state) (rule quiet_drop_queued)
  have "quiet (fst (fold (drop_queued sock) (queue s) s, [] :: emission list))
              (fst (fold (disconnect_match now sock) (matches s) (fold (drop_queued sock) (queue s) s, [])))"
    by (rule quiet_fold_pair) (rule quiet_disconnect_match)
  with q1 show ?thesis by (auto simp: handleDisconnect_def intro: quiet_trans)
qed

lemma quiet_timers: "quiet s (s\<lparr> timers := ts \<rparr>)"
  by (auto simp: quiet_def split: option.splits)

lemma quiet_clock: "quiet s (s\<lparr> clock := c \<rparr>)"
  by (auto simp: quiet_def split: option.splits)

lemma quiet_fire:
  assumes "fire now s i = Some (s', out)"
  shows "quiet s s'"
proof -
  let ?s1 = "s\<lparr> timers := take i (timers s) @ drop (Suc i) (timers s) \<rparr>"
  have q: "quiet s ?s1" by (rule quiet_timers)
  have r: "(s', out) = (case snd (timers s ! i) of
                   StartTimer m \<Rightarrow> startMatch now ?s1 m
                 | EndTimer m \<Rightarrow> endMatch now ?s1 m
                 | CleanupTimer m \<Rightarrow> (cleanup ?s1 m, []))"
    using assms by (simp add: fire_def Let_def split: if_splits)
  show ?thesis
  proof (cases "snd (timers s ! i)")
    case (StartTimer m)
    with r have "startMatch now ?s1 m = (s', out)" by simp
    then have "s' = fst (startMatch now ?s1 m)" by simp
    then show ?thesis using quiet_trans[OF q quiet_startMatch] by simp
  next
    case (EndTimer m)
    with r have "endMatch now ?s1 m = (s', out)" by simp
    then have "s' = fst (endMatch now ?s1 m)" by simp
    then show ?thesis using quiet_trans[OF q quiet_endMatch] by simp
  next
    case (CleanupTimer m)
    with r have "s' = cleanup ?s1 m" by simp
    then show ?thesis using quiet_trans[OF q quiet_cleanup] by simp
  qed
qed

text \<open>Joining the queue and pairing.\<close>

lemma fold_take_player_idx:
  "disjoint_idx (snd acc) \<Longrightarrow> disjoint_idx (snd (fold (take_player m) ps acc))"
proof (induction ps arbitrary: acc)
  case Nil
  then show ?case by simp
next
  case (Cons p ps)
  have "disjoint_idx (snd (take_player m p acc))"
    using Cons.prems by (auto simp: take_player_def disjoint_idx_def)
  then show ?case using Cons.IH by simp
qed

lemma fold_take_player_frame:
  "matchObjs (snd (fold (take_player m) ps acc)) = matchObjs (snd acc) \<and>
   matches (snd (fold (take_player m) ps acc)) = matches (snd acc) \<and>
   timers (snd (fold (take_player m) ps acc)) = timers (snd acc) \<and>
   nextMatchId (snd (fold (take_player m) ps acc)) = nextMatchId (snd acc)"
  by (induction ps arbitrary: acc) (auto simp: take_player_def)

lemma createMatch_idx:
  assumes d: "disjoint_idx s"
  shows "disjoint_idx (fst (createMatch now s))"
proof (cases "length (queue s) < MATCH_SIZE")
  case True
  then show ?thesis using d by (simp add: createMatch_def)
next
  case False
  have "disjoint_idx (snd (fold (take_player (nextMatchId s)) (take MATCH_SIZE (map snd (queue s))) ([], s)))"
    using d by (intro fold_take_player_idx) simp
  then show ?thesis using False
    by (simp add: createMatch_def Let_def split_beta put_match_def disjoint_idx_def)
qed

lemma handleJoinQueue_idx: "disjoint_idx s \<Longrightarrow> disjoint_idx (fst (handleJoinQueue now s sock u n))"
proof -
  assume d: "disjoint_idx s"
  show ?thesis
  proof (cases "playerToMatch s u \<noteq> None \<or> playerQueue s u \<noteq> None")
    case True
    then show ?thesis using d by (auto simp: handleJoinQueue_def)
  next
    case False
    let ?pl = "\<lparr> pid = u, socketId = sock, username = n, taps = 0, isReady = False,
                       lastTapTimestamp = 0, validatedTaps = 0 \<rparr>"
    let ?s1 = "s\<lparr> queue := AList.update u ?pl (queue s), playerQueue := (playerQueue s)(u \<mapsto> ''main'') \<rparr>"
    have d1: "disjoint_idx ?s1" using d False by (auto simp: disjoint_idx_def)
    have d2: "disjoint_idx (fst (createMatch now ?s1))" using d1 by (rule createMatch_idx)
    show ?thesis using False d1 d2 by (simp add: handleJoinQueue_def Let_def split_beta)
  qed
qed

lemma quiet_idx: "quiet s s' \<Longrightarrow> disjoint_idx s \<Longrightarrow> disjoint_idx s'"
  unfolding quiet_def disjoint_idx_def by blast

lemma disjoint_clock: "disjoint_idx (s\<lparr> clock := c \<rparr>) = disjoint_idx s"
  by (simp add: disjoint_idx_def)

lemma quiet_step:
  assumes "step now ev s = Some (s', out)" and "\<forall>a b c. ev \<noteq> JoinQueue a b c"
  shows "quiet s s'"
proof -
  let ?s0 = "s\<lparr> clock := now \<rparr>"
  have q: "quiet s ?s0" by (rule quiet_clock)
  have "quiet ?s0 s'"
  proof (cases ev)
    case (JoinQueue a b c)
    with assms(2) show ?thesis by simp
  next
    case (LeaveQueue a b)
    with assms(1) have "s' = fst (handleLeaveQueue ?s0 a b)"
      by (auto simp: step_def Let_def split: if_splits)
    then show ?thesis by (simp add: quiet_handleLeaveQueue)
  next
    case (PlayerReady a b c)
    with assms(1) have "s' = fst (handlePlayerReady now ?s0 a b c)"
      by (auto simp: step_def Let_def split: if_splits)
    then show ?thesis by (simp add: quiet_handlePlayerReady)
  next
    case (Tap a b c d)
    with assms(1) have "s' = fst (handleTap now ?s0 a b c d)"
      by (auto simp: step_def Let_def split: if_splits)
    then show ?thesis by (simp add: quiet_handleTap)
  next
    case (Disconnect a)
    with assms(1) have "s' = fst (handleDisconnect now ?s0 a)"
      by (auto simp: step_def Let_def split: if_splits)
    then show ?thesis by (simp add: quiet_handleDisconnect)
  next
    case (TimerFires i)
    with assms(1) have "fire now ?s0 i = Some (s', out)"
      by (auto simp: step_def Let_def split: if_splits)
    then show ?thesis by (rule quiet_fire)
  qed
  with q show ?thesis by (rule quiet_trans)
qed

lemma step_idx:
  assumes "step now ev s = Some (s', out)" and "disjoint_idx s"
  shows "disjoint_idx s'"
proof (cases "\<exists>a b c. ev = JoinQueue a b c")
  case True
  then obtain a b c where ev: "ev = JoinQueue a b c" by blast
  with assms(1) have "s' = fst (handleJoinQueue now (s\<lparr> clock := now \<rparr>) a b c)"
    by (auto simp: step_def Let_def split: if_splits)
  then show ?thesis using assms(2) by (simp add: handleJoinQueue_idx disjoint_clock)
next
  case False
  then have "quiet s s'" using assms(1) by (intro quiet_step) auto
  then show ?thesis using assms(2) by (rule quiet_idx)
qed

lemma run_idx: "run es s = Some (s', out) \<Longrightarrow> disjoint_idx s \<Longrightarrow> disjoint_idx s'"
proof (induction es arbitrary: s out)
  case Nil
  then show ?case by simp
next
  case (Cons e es)
  obtain now ev where e: "e = (now, ev)" by (cases e)
  from Cons.prems(1) e obtain s1 out1 s2 out2 where
    st: "step now ev s = Some (s1, out1)" and rn: "run es s1 = Some (s2, out2)" and eq: "s' = s2"
    by (auto split: option.splits prod.splits)
  from step_idx[OF st Cons.prems(2)] have "disjoint_idx s1" .
  from Cons.IH[OF _ this] rn eq show ?case by simp
qed

lemma init_idx: "disjoint_idx init"
  by (simp add: disjoint_idx_def init_def)


text \<open>Status changes of match objects.\<close>

lemma quiet_moves: "quiet s s' \<Longrightarrow> status_moves s s'"
  unfolding quiet_def status_moves_def
  by (elim conjE, intro allI, erule_tac x = m in allE) (auto split: option.splits)

lemma quiet_fresh:
  assumes q: "quiet s s'" and f: "fresh_ids s"
  shows "fresh_ids s'"
proof -
  have n: "nextMatchId s' = nextMatchId s" using q by (simp add: quiet_def)
  have "matchObjs s' m = None" if "nextMatchId s' \<le> m" for m
  proof -
    from that n f have "matchObjs s m = None" by (simp add: fresh_ids_def)
    with q show ?thesis by (rule quiet_NoneD)
  qed
  then show ?thesis by (simp add: fresh_ids_def)
qed

lemma quiet_never_starting: "quiet s s' \<Longrightarrow> never_starting s \<Longrightarrow> never_starting s'"
proof -
  assume q: "quiet s s'" and n: "never_starting s"
  have "case matchObjs s' m of None \<Rightarrow> True | Some b \<Rightarrow> status b \<noteq> Starting" for m
  proof (cases "matchObjs s m")
    case None
    with q have "matchObjs s' m = None" by (rule quiet_NoneD)
    then show ?thesis by simp
  next
    case (Some a)
    from quiet_SomeD[OF q Some] obtain b where
      b: "matchObjs s' m = Some b" "status b = status a \<or> status b = Active \<or> status b = Finished" by blast
    from n Some have "status a \<noteq> Starting"
      unfolding never_starting_def by (erule_tac x = m in allE) simp
    with b show ?thesis by auto
  qed
  then show ?thesis unfolding never_starting_def by blast
qed

lemma createMatch_objs:
  "(length (queue s) < MATCH_SIZE \<and> fst (createMatch now s) = s) \<or>
   (\<exists>M. status M = Waiting \<and>
        matchObjs (fst (createMatch now s)) = (matchObjs s)(nextMatchId s \<mapsto> M) \<and>
        nextMatchId (fst (createMatch now s)) = Suc (nextMatchId s))"
proof (cases "length (queue s) < MATCH_SIZE")
  case True
  then show ?thesis by (simp add: createMatch_def)
next
  case False
  let ?M = "\<lparr> mid = nextMatchId s,
              players = fst (fold (take_player (nextMatchId s)) (take MATCH_SIZE (map snd (queue s))) ([], s)),
              status = Waiting, startTime = None, endTime = None, duration = MATCH_DURATION,
              winner = None \<rparr>"
  have "matchObjs (fst (createMatch now s)) = (matchObjs s)(nextMatchId s \<mapsto> ?M)"
       "nextMatchId (fst (createMatch now s)) = Suc (nextMatchId s)"
    using False
    by (simp_all add: createMatch_def Let_def split_beta put_match_def fold_take_player_frame)
  moreover have "status ?M = Waiting" by simp
  ultimately show ?thesis by blast
qed

lemma handleJoinQueue_objs:
  "(matchObjs (fst (handleJoinQueue now s sock u n)) = matchObjs s \<and>
    nextMatchId (fst (handleJoinQueue now s sock u n)) = nextMatchId s) \<or>
   (\<exists>M. status M = Waiting \<and>
        matchObjs (fst (handleJoinQueue now s sock u n)) = (matchObjs s)(nextMatchId s \<mapsto> M) \<and>
        nextMatchId (fst (handleJoinQueue now s sock u n)) = Suc (nextMatchId s))"
proof (cases "playerToMatch s u \<noteq> None \<or> playerQueue s u \<noteq> None")
  case True
  then show ?thesis by (auto simp: handleJoinQueue_def)
next
  case False
  let ?pl = "\<lparr> pid = u, socketId = sock, username = n, taps = 0, isReady = False,
                       lastTapTimestamp = 0, validatedTaps = 0 \<rparr>"
  let ?s1 = "s\<lparr> queue := AList.update u ?pl (queue s), playerQueue := (playerQueue s)(u \<mapsto> ''main'') \<rparr>"
  have eq: "fst (handleJoinQueue now s sock u n) =
            (if length (queue ?s1) \<ge> MATCH_SIZE then fst (createMatch now ?s1) else ?s1)"
    using False by (simp add: handleJoinQueue_def Let_def split_beta)
  show ?thesis
  proof (cases "length (queue ?s1) \<ge> MATCH_SIZE")
    case True
    with createMatch_objs[of ?s1 now] eq show ?thesis by auto
  next
    case False
    with eq show ?thesis by simp
  qed
qed

lemma grow_moves:
  assumes "fresh_ids s"
      and "(matchObjs s' = matchObjs s \<and> nextMatchId s' = nextMatchId s) \<or>
           (\<exists>M. status M = Waiting \<and> matchObjs s' = (matchObjs s)(nextMatchId s \<mapsto> M) \<and>
                nextMatchId s' = Suc (nextMatchId s))"
  shows "status_moves s s' \<and> fresh_ids s' \<and> (never_starting s \<longrightarrow> never_starting s')"
proof -
  have f: "matchObjs s (nextMatchId s) = None" using assms(1) by (simp add: fresh_ids_def)
  from assms(2) show ?thesis
  proof
    assume "matchObjs s' = matchObjs s \<and> nextMatchId s' = nextMatchId s"
    then show ?thesis using assms(1)
      by (auto simp: status_moves_def fresh_ids_def never_starting_def split: option.splits)
  next
    assume "\<exists>M. status M = Waiting \<and> matchObjs s' = (matchObjs s)(nextMatchId s \<mapsto> M) \<and>
                nextMatchId s' = Suc (nextMatchId s)"
    then obtain M where M: "status M = Waiting" "matchObjs s' = (matchObjs s)(nextMatchId s \<mapsto> M)"
      "nextMatchId s' = Suc (nextMatchId s)" by blast
    have 1: "status_moves s s'" using M f by (auto simp: status_moves_def split: option.splits)
    have 2: "fresh_ids s'" using M assms(1) by (auto simp: fresh_ids_def)
    have 3: "never_starting s \<longrightarrow> never_starting s'"
      using M by (auto simp: never_starting_def split: option.splits)
    from 1 2 3 show ?thesis by blast
  qed
qed

lemma step_moves:
  assumes "step now ev s = Some (s', out)" and "sound s"
  shows "status_moves s s' \<and> sound s'"
proof (cases "\<exists>a b c. ev = JoinQueue a b c")
  case True
  then obtain a b c where ev: "ev = JoinQueue a b c" by blast
  let ?s0 = "s\<lparr> clock := now \<rparr>"
  from ev assms(1) have s': "s' = fst (handleJoinQueue now ?s0 a b c)"
    by (auto simp: step_def Let_def split: if_splits)
  have f0: "fresh_ids s" using assms(2) by (simp add: sound_def)
  have "status_moves s s' \<and> fresh_ids s' \<and> (never_starting s \<longrightarrow> never_starting s')"
    using handleJoinQueue_objs[of now ?s0 a b c] unfolding s'[symmetric]
    by (intro grow_moves[OF f0]) simp
  then show ?thesis using assms(2) by (simp add: sound_def)
next
  case False
  then have q: "quiet s s'" using assms(1) by (intro quiet_step) auto
  then show ?thesis using assms(2)
    by (auto simp: sound_def intro: quiet_moves quiet_fresh quiet_never_starting)
qed

lemma run_sound: "run es s = Some (s', out) \<Longrightarrow> sound s \<Longrightarrow> sound s'"
proof (induction es arbitrary: s out)
  case Nil
  then show ?case by simp
next
  case (Cons e es)
  obtain now ev where e: "e = (now, ev)" by (cases e)
  from Cons.prems(1) e obtain s1 out1 s2 out2 where
    st: "step now ev s = Some (s1, out1)" and rn: "run es s1 = Some (s2, out2)" and eq: "s' = s2"
    by (auto split: option.splits prod.splits)
  from step_moves[OF st Cons.prems(2)] have "sound s1" by simp
  from Cons.IH[OF _ this] rn eq show ?case by simp
qed

lemma init_sound: "sound init"
  by (simp add: sound_def fresh_ids_def never_starting_def init_def)

text \<open>
  C7.  The initial state has disjoint indices, every step of the event loop (each inbound
  event, including a join that triggers \<open>createMatch\<close>, and each timer callback,
  including the clean-up of \<open>endMatch\<close>) preserves disjointness, and hence in every state
  reached from the initial state no player id is in both \<open>playerQueue\<close> and
  \<open>playerToMatch\<close>.
\<close>

theorem index_disjoint:
  "disjoint_idx init \<and>
   (\<forall>now ev s s' out. disjoint_idx s \<and> step now ev s = Some (s', out) \<longrightarrow> disjoint_idx s') \<and>
   (\<forall>es s out. run es init = Some (s, out) \<longrightarrow>
        (\<forall>p. \<not> (p \<in> dom (playerQueue s) \<and> p \<in> dom (playerToMatch s))))"
proof -
  have "\<not> (p \<in> dom (playerQueue s) \<and> p \<in> dom (playerToMatch s))"
    if "run es init = Some (s, out)" for es s out p
    using run_idx[OF that init_idx] unfolding disjoint_idx_def by blast
  then show ?thesis using init_idx step_idx by blast
qed

theorem index_disjoint_witness:
  "state_after tr_active = Some st_active \<and> ''A'' \<in> dom (playerToMatch st_active) \<and>
   ''A'' \<notin> dom (playerQueue st_active) \<and>
   disjoint_idx st_active \<and>
   map_option fst (step 32010 (TimerFires 0) st_active) = Some st_ended \<and> disjoint_idx st_ended"
proof -
  from st_active_reached obtain out where r: "run tr_active init = Some (st_active, out)"
    by (auto simp: state_after_def)
  have a: "''A'' \<in> dom (playerToMatch st_active)" by (simp add: st_active_def)
  from index_disjoint r a have b: "''A'' \<notin> dom (playerQueue st_active)" by blast
  from index_disjoint r have c: "disjoint_idx st_active" unfolding disjoint_idx_def by blast
  have st: "map_option fst (step 32010 (TimerFires 0) st_active) = Some st_ended"
    by (simp add: model_defs example_defs fun_eq_iff)
  then obtain out' where "step 32010 (TimerFires 0) st_active = Some (st_ended, out')" by auto
  with index_disjoint c have d: "disjoint_idx st_ended" by blast
  from st_active_reached a b c st d show ?thesis by simp
qed


text \<open>Match objects along a run: rosters only shrink, and nothing returns to waiting.\<close>

lemma obj_step_refl: "obj_step a a"
  by (simp add: obj_step_def)

lemma obj_step_trans: "obj_step a b \<Longrightarrow> obj_step b c \<Longrightarrow> obj_step a c"
  unfolding obj_step_def using subseq_order.trans by blast

lemma obj_step_same_players:
  "players b = players a \<Longrightarrow> status b = status a \<or> status b = Active \<or> status b = Finished \<Longrightarrow>
   obj_step a b"
  by (auto simp: obj_step_def roster_ok_def)

lemma set_update_subset: "set (AList.update k v al) \<subseteq> insert (k, v) (set al)"
  by (induction al) auto

lemma obj_step_update:
  assumes "map_of (players a) k = Some p" and "pid p' = pid p"
      and "players b = AList.update k p' (players a)" and "status b = status a"
  shows "obj_step a b"
proof -
  have mem: "(k, p) \<in> set (players a)" using assms(1) by (rule map_of_SomeD)
  then have "k \<in> set (map fst (players a))" by force
  then have keys: "map fst (players b) = map fst (players a)"
    by (simp add: assms(3) update_keys)
  have "roster_ok b" if r: "roster_ok a"
  proof -
    from r mem have "pid p = k" by (auto simp: roster_ok_def)
    with assms(2) have "pid p' = k" by simp
    with r set_update_subset[of k p' "players a"] show ?thesis
      by (auto simp: roster_ok_def assms(3))
  qed
  with keys assms(4) show ?thesis by (simp add: obj_step_def)
qed

lemma obj_step_delete:
  assumes "players b = AList.delete k (players a)" and "status b = status a"
  shows "obj_step a b"
proof -
  have "map fst (players b) = filter (\<lambda>x. x \<noteq> k) (map fst (players a))"
    by (simp add: assms(1) delete_keys removeAll_filter_not_eq) (metis)
  then have "subseq (map fst (players b)) (map fst (players a))" by simp
  moreover have "roster_ok a \<longrightarrow> roster_ok b"
    using set_delete_subset[of k "players a"] by (auto simp: roster_ok_def assms(1))
  ultimately show ?thesis using assms(2) by (simp add: obj_step_def)
qed

lemma keptI:
  assumes "\<And>m a. matchObjs s m = Some a \<Longrightarrow> \<exists>b. matchObjs s' m = Some b \<and> obj_step a b"
      and "\<And>d m. (d, EndTimer m) \<in> set (timers s') \<Longrightarrow>
             (d, EndTimer m) \<in> set (timers s) \<or> (\<exists>b. matchObjs s' m = Some b \<and> status b \<noteq> Waiting)"
  shows "kept s s'"
  unfolding kept_def using assms by blast

lemma kept_objD:
  "kept s s' \<Longrightarrow> matchObjs s m = Some a \<Longrightarrow> \<exists>b. matchObjs s' m = Some b \<and> obj_step a b"
  unfolding kept_def by blast

lemma kept_timerD:
  "kept s s' \<Longrightarrow> (d, EndTimer m) \<in> set (timers s') \<Longrightarrow>
   (d, EndTimer m) \<in> set (timers s) \<or> (\<exists>b. matchObjs s' m = Some b \<and> status b \<noteq> Waiting)"
  unfolding kept_def by blast

lemma kept_same:
  assumes "matchObjs s' = matchObjs s" and "set (timers s') \<subseteq> set (timers s)"
  shows "kept s s'"
  using assms by (intro keptI) (auto simp: obj_step_refl)

lemma kept_refl: "kept s s"
  by (rule kept_same) simp_all

lemma kept_trans:
  assumes ab: "kept a b" and bc: "kept b c"
  shows "kept a c"
proof (rule keptI)
  fix m x assume "matchObjs a m = Some x"
  from kept_objD[OF ab this] obtain y where y: "matchObjs b m = Some y" "obj_step x y" by blast
  from kept_objD[OF bc y(1)] obtain z where z: "matchObjs c m = Some z" "obj_step y z" by blast
  from y(2) z(2) have "obj_step x z" by (rule obj_step_trans)
  with z(1) show "\<exists>z. matchObjs c m = Some z \<and> obj_step x z" by blast
next
  fix d m assume t: "(d, EndTimer m) \<in> set (timers c)"
  from kept_timerD[OF bc t]
  show "(d, EndTimer m) \<in> set (timers a) \<or> (\<exists>z. matchObjs c m = Some z \<and> status z \<noteq> Waiting)"
  proof
    assume "(d, EndTimer m) \<in> set (timers b)"
    from kept_timerD[OF ab this] show ?thesis
    proof
      assume "(d, EndTimer m) \<in> set (timers a)"
      then show ?thesis by blast
    next
      assume "\<exists>y. matchObjs b m = Some y \<and> status y \<noteq> Waiting"
      then obtain y where y: "matchObjs b m = Some y" "status y \<noteq> Waiting" by blast
      from kept_objD[OF bc y(1)] obtain z where "matchObjs c m = Some z" "obj_step y z" by blast
      with y(2) show ?thesis by (auto simp: obj_step_def)
    qed
  next
    assume "\<exists>z. matchObjs c m = Some z \<and> status z \<noteq> Waiting"
    then show ?thesis by blast
  qed
qed

text \<open>What \<open>endMatch\<close> and \<open>startMatch\<close> do to the match objects and the timers.\<close>

lemma endMatch_effect:
  assumes "matchObjs s k = Some a"
  shows "\<exists>b. matchObjs (fst (endMatch now s m)) k = Some b \<and> players b = players a \<and>
             (status b = status a \<or> (k = m \<and> status b = Finished))"
proof (cases "get_match s m")
  case None
  then show ?thesis using assms by (simp add: endMatch_dead)
next
  case (Some x)
  then have "matchObjs s m = Some x" by (rule get_match_SomeD)
  then show ?thesis using assms by (auto simp: endMatch_live[OF Some] Let_def)
qed

lemma endMatch_timers:
  "set (timers (fst (endMatch now s m))) \<subseteq> insert (now + 5000, CleanupTimer m) (set (timers s))"
  by (cases "get_match s m") (auto simp: endMatch_dead endMatch_live Let_def)

lemma startMatch_effect:
  assumes "matchObjs s k = Some a"
  shows "\<exists>b. matchObjs (fst (startMatch now s m)) k = Some b \<and> players b = players a \<and>
             (status b = status a \<or> (k = m \<and> status b = Active))"
  using assms
  by (auto simp: startMatch_def put_match_def Let_def dest: get_match_SomeD split: option.splits)

lemma startMatch_timers:
  assumes "(d, EndTimer k) \<in> set (timers (fst (startMatch now s m)))"
  shows "(d, EndTimer k) \<in> set (timers s) \<or>
         (\<exists>b. matchObjs (fst (startMatch now s m)) k = Some b \<and> status b = Active)"
  using assms
  by (auto simp: startMatch_def put_match_def Let_def split: option.splits)

lemma kept_endMatch: "kept s (fst (endMatch now s m))"
proof (rule keptI)
  fix k a assume "matchObjs s k = Some a"
  from endMatch_effect[OF this, of now m]
  show "\<exists>b. matchObjs (fst (endMatch now s m)) k = Some b \<and> obj_step a b"
    by (auto intro: obj_step_same_players)
next
  fix d k assume "(d, EndTimer k) \<in> set (timers (fst (endMatch now s m)))"
  with endMatch_timers[of now s m]
  show "(d, EndTimer k) \<in> set (timers s) \<or>
        (\<exists>b. matchObjs (fst (endMatch now s m)) k = Some b \<and> status b \<noteq> Waiting)"
    by auto
qed

lemma kept_startMatch: "kept s (fst (startMatch now s m))"
proof (rule keptI)
  fix k a assume "matchObjs s k = Some a"
  from startMatch_effect[OF this, of now m]
  show "\<exists>b. matchObjs (fst (startMatch now s m)) k = Some b \<and> obj_step a b"
    by (auto intro: obj_step_same_players)
next
  fix d k assume "(d, EndTimer k) \<in> set (timers (fst (startMatch now s m)))"
  from startMatch_timers[OF this]
  show "(d, EndTimer k) \<in> set (timers s) \<or>
        (\<exists>b. matchObjs (fst (startMatch now s m)) k = Some b \<and> status b \<noteq> Waiting)"
    by auto
qed

lemma kept_put:
  assumes "matchObjs s m = Some a" and "obj_step a b"
  shows "kept s ((put_match s m b)\<lparr> playerToMatch := f \<rparr>)" and "kept s (put_match s m b)"
  using assms by (auto intro!: keptI simp: put_match_def obj_step_refl)

lemma validateTap_pid: "pid (snd (validateTap now p ts)) = pid p"
  by (simp add: validateTap_def Let_def)

text \<open>\<open>handleTap\<close> in one piece: nothing, or the player's entry replaced in place.\<close>

lemma handleTap_cases:
  "fst (handleTap now s sock u m ts) = s \<or>
   (\<exists>match player p'. get_match s m = Some match \<and> map_of (players match) u = Some player \<and>
        pid p' = pid player \<and>
        fst (handleTap now s sock u m ts)
          = put_match s m (match\<lparr> players := AList.update u p' (players match) \<rparr>))"
proof (cases "get_match s m")
  case None
  then show ?thesis by (simp add: handleTap_def)
next
  case (Some match)
  note g = this
  show ?thesis
  proof (cases "status match = Active")
    case False
    with g show ?thesis by (simp add: handleTap_def)
  next
    case True
    note act = this
    show ?thesis
    proof (cases "map_of (players match) u")
      case None
      with g act show ?thesis by (simp add: handleTap_def)
    next
      case (Some player)
      obtain ok p1 where v: "validateTap now player ts = (ok, p1)"
        by (cases "validateTap now player ts")
      then have pp: "pid p1 = pid player" using validateTap_pid[of now player ts] by simp
      show ?thesis
      proof (cases ok)
        case False
        with g act Some v show ?thesis by (simp add: handleTap_def)
      next
        case True
        let ?p3 = "p1\<lparr> validatedTaps := validatedTaps p1 + 1, taps := taps p1 + 1 \<rparr>"
        have "fst (handleTap now s sock u m ts)
                = put_match s m (match\<lparr> players := AList.update u ?p3 (players match) \<rparr>)"
          using g act Some v True by (simp add: handleTap_def Let_def)
        moreover have "pid ?p3 = pid player" using pp by simp
        ultimately show ?thesis using g Some by blast
      qed
    qed
  qed
qed

lemma kept_handleTap: "kept s (fst (handleTap now s sock u m ts))"
  using handleTap_cases[of now s sock u m ts]
  by (auto simp: kept_refl intro!: kept_put(2) obj_step_update dest: get_match_SomeD)

lemma kept_handlePlayerReady: "kept s (fst (handlePlayerReady now s sock u m))"
proof (cases "get_match s m")
  case None
  then show ?thesis by (simp add: handlePlayerReady_def kept_refl)
next
  case (Some x)
  show ?thesis
  proof (cases "map_of (players x) u")
    case None
    with Some show ?thesis by (simp add: handlePlayerReady_def kept_refl)
  next
    case (Some p)
    let ?m1 = "x\<lparr> players := AList.update u (p\<lparr> isReady := True \<rparr>) (players x) \<rparr>"
    let ?s1 = "put_match s m ?m1"
    have "obj_step x ?m1" using Some by (intro obj_step_update[where k = u and p = p]) simp_all
    then have q1: "kept s ?s1"
      using \<open>get_match s m = Some x\<close> by (intro kept_put(2)) (auto dest: get_match_SomeD)
    have q2: "kept s (fst (startMatch now ?s1 m))" using q1 kept_startMatch by (rule kept_trans)
    show ?thesis using \<open>get_match s m = Some x\<close> Some q1 q2
      by (simp add: handlePlayerReady_def Let_def)
  qed
qed

lemma kept_cleanup: "kept s (cleanup s m)"
  by (rule kept_same) (simp_all add: cleanup_def split: option.splits)

lemma kept_handleLeaveQueue: "kept s (fst (handleLeaveQueue s sock u))"
  by (rule kept_same) (simp_all add: handleLeaveQueue_def)

lemma kept_drop_queued: "kept s (drop_queued sock e s)"
  by (rule kept_same) (simp_all add: drop_queued_def)

lemma kept_fold_state:
  assumes "\<And>x a. kept a (f x a)"
  shows "kept s (fold f xs s)"
proof (induction xs arbitrary: s)
  case Nil
  show ?case by (simp add: kept_refl)
next
  case (Cons x xs)
  have "kept s (f x s)" by (rule assms)
  moreover have "kept (f x s) (fold f xs (f x s))" by (rule Cons.IH)
  ultimately show ?case by (simp add: kept_trans)
qed

lemma kept_fold_pair:
  assumes "\<And>x a. kept (fst a) (fst (f x a))"
  shows "kept (fst acc) (fst (fold f xs acc))"
proof (induction xs arbitrary: acc)
  case Nil
  show ?case by (simp add: kept_refl)
next
  case (Cons x xs)
  have "kept (fst acc) (fst (f x acc))" by (rule assms)
  moreover have "kept (fst (f x acc)) (fst (fold f xs (f x acc)))" by (rule Cons.IH)
  ultimately show ?case by (simp add: kept_trans)
qed

lemma kept_then_end: "kept s s1 \<Longrightarrow> kept s (fst (endMatch now s1 m))"
  by (rule kept_trans[OF _ kept_endMatch])

lemma kept_put_drop:
  "matchObjs s m = Some x \<Longrightarrow>
   kept s ((put_match s m (x\<lparr> players := AList.delete k (players x) \<rparr>))\<lparr> playerToMatch := f \<rparr>)"
  by (rule kept_put(1), assumption, rule obj_step_delete) simp_all

lemma kept_drop_from_match: "kept (fst acc) (fst (drop_from_match now sock m e acc))"
proof (cases "socketId (snd e) = sock")
  case False
  then show ?thesis by (simp add: drop_from_match_def kept_refl)
next
  case True
  show ?thesis
  proof (cases "matchObjs (fst acc) m")
    case None
    with True show ?thesis by (simp add: drop_from_match_def kept_refl)
  next
    case (Some x)
    let ?s1 = "(put_match (fst acc) m (x\<lparr> players := AList.delete (fst e) (players x) \<rparr>))
                 \<lparr> playerToMatch := (playerToMatch (fst acc))(fst e := None) \<rparr>"
    have k1: "kept (fst acc) ?s1" using Some by (rule kept_put_drop)
    have k2: "kept (fst acc) (fst (endMatch now ?s1 m))" using k1 by (rule kept_then_end)
    have "fst (drop_from_match now sock m e acc) = ?s1 \<or>
          fst (drop_from_match now sock m e acc) = fst (endMatch now ?s1 m)"
      using True Some by (simp add: drop_from_match_def Let_def split_beta)
    with k1 k2 show ?thesis by auto
  qed
qed

lemma kept_disconnect_match: "kept (fst acc) (fst (disconnect_match now sock m acc))"
  by (auto simp: disconnect_match_def kept_refl intro: kept_fold_pair kept_drop_from_match
           split: option.splits)

lemma kept_handleDisconnect: "kept s (fst (handleDisconnect now s sock))"
proof -
  have q1: "kept s (fold (drop_queued sock) (queue s) s)"
    by (rule kept_fold_state) (rule kept_drop_queued)
  have "kept (fst (fold (drop_queued sock) (queue s) s, [] :: emission list))
              (fst (fold (disconnect_match now sock) (matches s) (fold (drop_queued sock) (queue s) s, [])))"
    by (rule kept_fold_pair) (rule kept_disconnect_match)
  with q1 show ?thesis by (auto simp: handleDisconnect_def intro: kept_trans)
qed

lemma kept_fire:
  assumes "fire now s i = Some (s', out)"
  shows "kept s s'"
proof -
  let ?s1 = "s\<lparr> timers := take i (timers s) @ drop (Suc i) (timers s) \<rparr>"
  have "set (take i (timers s) @ drop (Suc i) (timers s)) \<subseteq> set (timers s)"
    using set_take_subset[of i "timers s"] set_drop_subset[of "Suc i" "timers s"] by auto
  then have q: "kept s ?s1" by (intro kept_same) simp_all
  have r: "(s', out) = (case snd (timers s ! i) of
                   StartTimer m \<Rightarrow> startMatch now ?s1 m
                 | EndTimer m \<Rightarrow> endMatch now ?s1 m
                 | CleanupTimer m \<Rightarrow> (cleanup ?s1 m, []))"
    using assms by (simp add: fire_def Let_def split: if_splits)
  show ?thesis
  proof (cases "snd (timers s ! i)")
    case (StartTimer m)
    with r have "startMatch now ?s1 m = (s', out)" by simp
    then have "s' = fst (startMatch now ?s1 m)" by simp
    then show ?thesis using kept_trans[OF q kept_startMatch] by simp
  next
    case (EndTimer m)
    with r have "endMatch now ?s1 m = (s', out)" by simp
    then have "s' = fst (endMatch now ?s1 m)" by simp
    then show ?thesis using kept_trans[OF q kept_endMatch] by simp
  next
    case (CleanupTimer m)
    with r have "s' = cleanup ?s1 m" by simp
    then show ?thesis using kept_trans[OF q kept_cleanup] by simp
  qed
qed

lemma createMatch_timers:
  "set (timers (fst (createMatch now s))) \<subseteq> insert (now + 2000, StartTimer (nextMatchId s)) (set (timers s))"
  by (cases "length (queue s) < MATCH_SIZE")
     (auto simp: createMatch_def Let_def split_beta put_match_def fold_take_player_frame)

lemma handleJoinQueue_timers:
  "set (timers (fst (handleJoinQueue now s sock u n)))
     \<subseteq> insert (now + 2000, StartTimer (nextMatchId s)) (set (timers s))"
proof (cases "playerToMatch s u \<noteq> None \<or> playerQueue s u \<noteq> None")
  case True
  then show ?thesis by (auto simp: handleJoinQueue_def)
next
  case False
  let ?pl = "\<lparr> pid = u, socketId = sock, username = n, taps = 0, isReady = False,
                       lastTapTimestamp = 0, validatedTaps = 0 \<rparr>"
  let ?s1 = "s\<lparr> queue := AList.update u ?pl (queue s), playerQueue := (playerQueue s)(u \<mapsto> ''main'') \<rparr>"
  have "fst (handleJoinQueue now s sock u n) = ?s1 \<or>
        fst (handleJoinQueue now s sock u n) = fst (createMatch now ?s1)"
    using False by (simp add: handleJoinQueue_def Let_def split_beta)
  with createMatch_timers[of now ?s1] show ?thesis by auto
qed

lemma handleJoinQueue_keeps:
  assumes "fresh_ids s" and "matchObjs s m = Some a"
  shows "matchObjs (fst (handleJoinQueue now s sock u n)) m = Some a"
proof -
  have "m \<noteq> nextMatchId s" using assms by (auto simp: fresh_ids_def)
  with handleJoinQueue_objs[of now s sock u n] assms(2) show ?thesis by auto
qed

lemma kept_handleJoinQueue:
  assumes "fresh_ids s"
  shows "kept s (fst (handleJoinQueue now s sock u n))"
proof (rule keptI)
  fix m a assume "matchObjs s m = Some a"
  from handleJoinQueue_keeps[OF assms this]
  show "\<exists>b. matchObjs (fst (handleJoinQueue now s sock u n)) m = Some b \<and> obj_step a b"
    by (simp add: obj_step_refl)
next
  fix d m assume "(d, EndTimer m) \<in> set (timers (fst (handleJoinQueue now s sock u n)))"
  with handleJoinQueue_timers[of now s sock u n]
  show "(d, EndTimer m) \<in> set (timers s) \<or>
        (\<exists>b. matchObjs (fst (handleJoinQueue now s sock u n)) m = Some b \<and> status b \<noteq> Waiting)"
    by auto
qed

lemma kept_clock: "kept s (s\<lparr> clock := c \<rparr>)"
  by (rule kept_same) simp_all

lemma kept_step:
  assumes "step now ev s = Some (s', out)" and "sound s"
  shows "kept s s'"
proof -
  let ?s0 = "s\<lparr> clock := now \<rparr>"
  have q: "kept s ?s0" by (rule kept_clock)
  have f: "fresh_ids ?s0" using assms(2) by (simp add: sound_def fresh_ids_def)
  have "kept ?s0 s'"
  proof (cases ev)
    case (JoinQueue a b c)
    with assms(1) have "s' = fst (handleJoinQueue now ?s0 a b c)"
      by (auto simp: step_def Let_def split: if_splits)
    then show ?thesis using f by (simp add: kept_handleJoinQueue)
  next
    case (LeaveQueue a b)
    with assms(1) have "s' = fst (handleLeaveQueue ?s0 a b)"
      by (auto simp: step_def Let_def split: if_splits)
    then show ?thesis by (simp add: kept_handleLeaveQueue)
  next
    case (PlayerReady a b c)
    with assms(1) have "s' = fst (handlePlayerReady now ?s0 a b c)"
      by (auto simp: step_def Let_def split: if_splits)
    then show ?thesis by (simp add: kept_handlePlayerReady)
  next
    case (Tap a b c d)
    with assms(1) have "s' = fst (handleTap now ?s0 a b c d)"
      by (auto simp: step_def Let_def split: if_splits)
    then show ?thesis by (simp add: kept_handleTap)
  next
    case (Disconnect a)
    with assms(1) have "s' = fst (handleDisconnect now ?s0 a)"
      by (auto simp: step_def Let_def split: if_splits)
    then show ?thesis by (simp add: kept_handleDisconnect)
  next
    case (TimerFires i)
    with assms(1) have "fire now ?s0 i = Some (s', out)"
      by (auto simp: step_def Let_def split: if_splits)
    then show ?thesis by (rule kept_fire)
  qed
  with q show ?thesis by (rule kept_trans)
qed

lemma run_kept: "run es s = Some (s', out) \<Longrightarrow> sound s \<Longrightarrow> kept s s'"
proof (induction es arbitrary: s out)
  case Nil
  then show ?case by (simp add: kept_refl)
next
  case (Cons e es)
  obtain now ev where e: "e = (now, ev)" by (cases e)
  from Cons.prems(1) e obtain s1 out1 s2 out2 where
    st: "step now ev s = Some (s1, out1)" and rn: "run es s1 = Some (s2, out2)" and eq: "s' = s2"
    by (auto split: option.splits prod.splits)
  from step_moves[OF st Cons.prems(2)] have s1: "sound s1" by simp
  have "kept s s1" using st Cons.prems(2) by (rule kept_step)
  moreover have "kept s1 s'" using Cons.IH[OF _ s1] rn eq by simp
  ultimately show ?case by (rule kept_trans)
qed

lemma kept_end_timers:
  assumes "kept s s'" and "end_timers_ok s"
  shows "end_timers_ok s'"
  unfolding end_timers_ok_def
proof (intro allI impI)
  fix d m assume "(d, EndTimer m) \<in> set (timers s')"
  from kept_timerD[OF assms(1) this]
  show "\<exists>a. matchObjs s' m = Some a \<and> status a \<noteq> Waiting"
  proof
    assume "(d, EndTimer m) \<in> set (timers s)"
    with assms(2) obtain a where a: "matchObjs s m = Some a" "status a \<noteq> Waiting"
      unfolding end_timers_ok_def by blast
    from kept_objD[OF assms(1) a(1)] a(2) show ?thesis by (auto simp: obj_step_def)
  qed blast
qed

lemma reached_end_timers:
  assumes "run es init = Some (s, out)"
  shows "end_timers_ok s"
proof -
  have "end_timers_ok init" by (simp add: end_timers_ok_def init_def)
  with run_kept[OF assms init_sound] show ?thesis by (rule kept_end_timers)
qed


text \<open>What a disconnect does to the match objects.\<close>

lemma disc_obj_refl: "disc_obj a a"
  by (simp add: disc_obj_def)

lemma disc_obj_trans: "disc_obj a b \<Longrightarrow> disc_obj b c \<Longrightarrow> disc_obj a c"
  unfolding disc_obj_def by metis

lemma disc_relI:
  assumes "matches s' = matches s"
      and "\<And>m a. matchObjs s m = Some a \<Longrightarrow> \<exists>b. matchObjs s' m = Some b \<and> disc_obj a b"
  shows "disc_rel s s'"
  unfolding disc_rel_def using assms by blast

lemma disc_rel_objD:
  "disc_rel s s' \<Longrightarrow> matchObjs s m = Some a \<Longrightarrow> \<exists>b. matchObjs s' m = Some b \<and> disc_obj a b"
  unfolding disc_rel_def by blast

lemma disc_rel_matches: "disc_rel s s' \<Longrightarrow> matches s' = matches s"
  unfolding disc_rel_def by blast

lemma disc_rel_same: "matchObjs s' = matchObjs s \<Longrightarrow> matches s' = matches s \<Longrightarrow> disc_rel s s'"
  by (rule disc_relI) (simp_all add: disc_obj_refl)

lemma disc_rel_refl: "disc_rel s s"
  by (rule disc_rel_same) simp_all

lemma disc_rel_trans:
  assumes ab: "disc_rel a b" and bc: "disc_rel b c"
  shows "disc_rel a c"
proof (rule disc_relI)
  show "matches c = matches a" using ab bc by (simp add: disc_rel_matches)
next
  fix m x assume "matchObjs a m = Some x"
  from disc_rel_objD[OF ab this] obtain y where y: "matchObjs b m = Some y" "disc_obj x y" by blast
  from disc_rel_objD[OF bc y(1)] obtain z where z: "matchObjs c m = Some z" "disc_obj y z" by blast
  from y(2) z(2) have "disc_obj x z" by (rule disc_obj_trans)
  with z(1) show "\<exists>z. matchObjs c m = Some z \<and> disc_obj x z" by blast
qed

lemma endMatch_matches: "matches (fst (endMatch now s m)) = matches s"
  by (cases "get_match s m") (simp_all add: endMatch_dead endMatch_live Let_def)

lemma endMatch_finishes:
  "get_match s m = Some x \<Longrightarrow>
   \<exists>b. matchObjs (fst (endMatch now s m)) m = Some b \<and> status b = Finished \<and> players b = players x"
  by (simp add: endMatch_live Let_def)

lemma disc_drop_from_match:
  assumes live: "m \<in> set (matches (fst acc))"
  shows "disc_rel (fst acc) (fst (drop_from_match now sock m e acc))"
proof (cases "socketId (snd e) = sock")
  case False
  then show ?thesis by (simp add: drop_from_match_def disc_rel_refl)
next
  case True
  show ?thesis
  proof (cases "matchObjs (fst acc) m")
    case None
    with True show ?thesis by (simp add: drop_from_match_def disc_rel_refl)
  next
    case (Some x)
    define m1 where "m1 = x\<lparr> players := AList.delete (fst e) (players x) \<rparr>"
    define s1 where "s1 = (put_match (fst acc) m m1)
                 \<lparr> playerToMatch := (playerToMatch (fst acc))(fst e := None) \<rparr>"
    have res: "fst (drop_from_match now sock m e acc)
                 = (if players m1 = [] then fst (endMatch now s1 m) else s1)"
      using True Some by (simp add: drop_from_match_def Let_def split_beta m1_def s1_def)
    have o1: "matchObjs s1 k = (if k = m then Some m1 else matchObjs (fst acc) k)" for k
      by (simp add: s1_def put_match_def)
    have ms1: "matches s1 = matches (fst acc)" by (simp add: s1_def put_match_def)
    have g1: "get_match s1 m = Some m1" using live by (simp add: get_match_def o1 ms1)
    show ?thesis
    proof (cases "players m1 = []")
      case False
      have "disc_rel (fst acc) s1"
      proof (rule disc_relI)
        show "matches s1 = matches (fst acc)" by (rule ms1)
      next
        fix k a assume a: "matchObjs (fst acc) k = Some a"
        show "\<exists>b. matchObjs s1 k = Some b \<and> disc_obj a b"
        proof (cases "k = m")
          case True
          with a Some have "a = x" by simp
          then have "disc_obj a m1" using False by (auto simp: disc_obj_def m1_def)
          with True show ?thesis by (simp add: o1)
        next
          case False
          with a show ?thesis by (simp add: o1 disc_obj_refl)
        qed
      qed
      with False res show ?thesis by simp
    next
      case True
      note empty = this
      have "disc_rel (fst acc) (fst (endMatch now s1 m))"
      proof (rule disc_relI)
        show "matches (fst (endMatch now s1 m)) = matches (fst acc)"
          by (simp add: endMatch_matches ms1)
      next
        fix k a assume a: "matchObjs (fst acc) k = Some a"
        show "\<exists>b. matchObjs (fst (endMatch now s1 m)) k = Some b \<and> disc_obj a b"
        proof (cases "k = m")
          case True
          from endMatch_finishes[OF g1, of now] obtain b where
            b: "matchObjs (fst (endMatch now s1 m)) m = Some b" "status b = Finished"
               "players b = players m1" by blast
          then have "disc_obj a b" using empty by (simp add: disc_obj_def)
          with b(1) True show ?thesis by simp
        next
          case False
          then have "matchObjs s1 k = Some a" using a by (simp add: o1)
          from endMatch_effect[OF this, of now m] False
          show ?thesis by (auto simp: disc_obj_def)
        qed
      qed
      with True res show ?thesis by simp
    qed
  qed
qed

lemma disc_fold_drop_from_match:
  "m \<in> set (matches (fst acc)) \<Longrightarrow>
   disc_rel (fst acc) (fst (fold (drop_from_match now sock m) es acc))"
proof (induction es arbitrary: acc)
  case Nil
  show ?case by (simp add: disc_rel_refl)
next
  case (Cons e es)
  have 1: "disc_rel (fst acc) (fst (drop_from_match now sock m e acc))"
    using Cons.prems by (rule disc_drop_from_match)
  then have "m \<in> set (matches (fst (drop_from_match now sock m e acc)))"
    using Cons.prems by (simp add: disc_rel_matches)
  then have "disc_rel (fst (drop_from_match now sock m e acc))
                      (fst (fold (drop_from_match now sock m) es (drop_from_match now sock m e acc)))"
    by (rule Cons.IH)
  with 1 show ?case by (simp add: disc_rel_trans)
qed

lemma disc_disconnect_match:
  "m \<in> set (matches (fst acc)) \<Longrightarrow> disc_rel (fst acc) (fst (disconnect_match now sock m acc))"
  by (simp add: disconnect_match_def disc_rel_refl disc_fold_drop_from_match split: option.splits)

lemma disc_fold_disconnect_match:
  "set ms \<subseteq> set (matches (fst acc)) \<Longrightarrow>
   disc_rel (fst acc) (fst (fold (disconnect_match now sock) ms acc))"
proof (induction ms arbitrary: acc)
  case Nil
  show ?case by (simp add: disc_rel_refl)
next
  case (Cons m ms)
  have 1: "disc_rel (fst acc) (fst (disconnect_match now sock m acc))"
    using Cons.prems by (intro disc_disconnect_match) simp
  then have "set ms \<subseteq> set (matches (fst (disconnect_match now sock m acc)))"
    using Cons.prems by (simp add: disc_rel_matches)
  then have "disc_rel (fst (disconnect_match now sock m acc))
                      (fst (fold (disconnect_match now sock) ms (disconnect_match now sock m acc)))"
    by (rule Cons.IH)
  with 1 show ?case by (simp add: disc_rel_trans)
qed

lemma fold_drop_queued_frame:
  "matchObjs (fold (drop_queued sock) es s) = matchObjs s \<and>
   matches (fold (drop_queued sock) es s) = matches s"
  by (induction es arbitrary: s) (simp_all add: drop_queued_def)

lemma disc_handleDisconnect: "disc_rel s (fst (handleDisconnect now s sock))"
proof -
  let ?s0 = "fold (drop_queued sock) (queue s) s"
  have 0: "disc_rel s ?s0" by (rule disc_rel_same) (simp_all add: fold_drop_queued_frame)
  have "set (matches s) \<subseteq> set (matches (fst (?s0, [] :: emission list)))"
    by (simp add: fold_drop_queued_frame)
  then have "disc_rel (fst (?s0, [] :: emission list))
                      (fst (fold (disconnect_match now sock) (matches s) (?s0, [])))"
    by (rule disc_fold_disconnect_match)
  with 0 show ?thesis by (auto simp: handleDisconnect_def intro: disc_rel_trans)
qed

text \<open>The status of a match object across one handler or timer callback.\<close>

lemma handleTap_status:
  assumes "matchObjs s k = Some a"
  shows "\<exists>b. matchObjs (fst (handleTap now s sock u m ts)) k = Some b \<and> status b = status a"
proof -
  from handleTap_cases[of now s sock u m ts]
  show ?thesis
  proof
    assume "fst (handleTap now s sock u m ts) = s"
    with assms show ?thesis by simp
  next
    assume "\<exists>match player p'. get_match s m = Some match \<and> map_of (players match) u = Some player \<and>
        pid p' = pid player \<and>
        fst (handleTap now s sock u m ts)
          = put_match s m (match\<lparr> players := AList.update u p' (players match) \<rparr>)"
    then obtain match p' where g: "get_match s m = Some match"
      and r: "fst (handleTap now s sock u m ts)
          = put_match s m (match\<lparr> players := AList.update u p' (players match) \<rparr>)" by blast
    from g have "matchObjs s m = Some match" by (rule get_match_SomeD)
    with assms r show ?thesis by (cases "k = m") (simp_all add: put_match_def)
  qed
qed

lemma handlePlayerReady_status:
  assumes "matchObjs s k = Some a"
  shows "\<exists>b. matchObjs (fst (handlePlayerReady now s sock u m)) k = Some b \<and>
             (status b = status a \<or> (status a = Waiting \<and> status b = Active))"
proof (cases "get_match s m")
  case None
  then show ?thesis using assms by (simp add: handlePlayerReady_def)
next
  case (Some x)
  note g = this
  then have ox: "matchObjs s m = Some x" by (rule get_match_SomeD)
  show ?thesis
  proof (cases "map_of (players x) u")
    case None
    with g show ?thesis using assms by (simp add: handlePlayerReady_def)
  next
    case (Some p)
    define m1 where "m1 = x\<lparr> players := AList.update u (p\<lparr> isReady := True \<rparr>) (players x) \<rparr>"
    define s1 where "s1 = put_match s m m1"
    define a1 where "a1 = (if k = m then m1 else a)"
    have o1: "matchObjs s1 k = Some a1" using assms by (simp add: s1_def put_match_def a1_def)
    have st1: "status a1 = status a" using assms ox by (auto simp: a1_def m1_def)
    have res: "fst (handlePlayerReady now s sock u m)
                 = (if list_all isReady (map snd (players m1)) \<and> status m1 = Waiting
                    then fst (startMatch now s1 m) else s1)"
      using g Some by (simp add: handlePlayerReady_def Let_def m1_def s1_def)
    show ?thesis
    proof (cases "list_all isReady (map snd (players m1)) \<and> status m1 = Waiting")
      case False
      with res o1 st1 show ?thesis by auto
    next
      case True
      then have w: "status x = Waiting" by (simp add: m1_def)
      from startMatch_effect[OF o1, of now m] obtain b where
        b: "matchObjs (fst (startMatch now s1 m)) k = Some b"
           "status b = status a1 \<or> (k = m \<and> status b = Active)" by blast
      have "status b = status a \<or> (status a = Waiting \<and> status b = Active)"
      proof (cases "k = m")
        case True
        with assms ox have "a = x" by simp
        with b(2) w st1 show ?thesis by auto
      next
        case False
        with b(2) st1 show ?thesis by simp
      qed
      with b(1) res True show ?thesis by simp
    qed
  qed
qed

lemma fire_status:
  assumes "fire now s i = Some (s', out)" and "matchObjs s k = Some a"
  shows "\<exists>b. matchObjs s' k = Some b \<and>
             (status b = status a
              \<or> (snd (timers s ! i) = StartTimer k \<and> status b = Active)
              \<or> (snd (timers s ! i) = EndTimer k \<and> status b = Finished))"
proof -
  let ?s1 = "s\<lparr> timers := take i (timers s) @ drop (Suc i) (timers s) \<rparr>"
  have o1: "matchObjs ?s1 k = Some a" using assms(2) by simp
  have r: "(s', out) = (case snd (timers s ! i) of
                   StartTimer m \<Rightarrow> startMatch now ?s1 m
                 | EndTimer m \<Rightarrow> endMatch now ?s1 m
                 | CleanupTimer m \<Rightarrow> (cleanup ?s1 m, []))"
    using assms(1) by (simp add: fire_def Let_def split: if_splits)
  show ?thesis
  proof (cases "snd (timers s ! i)")
    case (StartTimer m)
    with r have "startMatch now ?s1 m = (s', out)" by simp
    then have "s' = fst (startMatch now ?s1 m)" by simp
    with startMatch_effect[OF o1, of now m] StartTimer show ?thesis by auto
  next
    case (EndTimer m)
    with r have "endMatch now ?s1 m = (s', out)" by simp
    then have "s' = fst (endMatch now ?s1 m)" by simp
    with endMatch_effect[OF o1, of now m] EndTimer show ?thesis by auto
  next
    case (CleanupTimer m)
    with r have "s' = cleanup ?s1 m" by simp
    then show ?thesis using assms(2) by (simp add: cleanup_def split: option.splits)
  qed
qed

lemma fire_index: "fire now s i = Some (s', out) \<Longrightarrow> i < length (timers s)"
  by (simp add: fire_def split: if_splits)


text \<open>
  C8 does not hold as stated: when the last player of a match that is still waiting
  disconnects, \<open>handleDisconnect\<close> calls \<open>endMatch\<close> and the match goes from \<open>waiting\<close> to
  \<open>finished\<close> in one step.  After A and B are paired and A's socket has gone, match 0 is
  waiting with roster B; the disconnect of B's socket at 200 finishes it.
\<close>

theorem waiting_to_finished_counterexample:
  "map_option (\<lambda>s. (status_of s 0, roster_of s 0)) (state_after tr_one_left)
     = Some (Some Waiting, Some [''B'']) \<and>
   map_option (\<lambda>s. (status_of s 0, roster_of s 0))
              (state_after (tr_one_left @ [(200, Disconnect ''s2'')]))
     = Some (Some Finished, Some [])"
  by (simp add: model_defs example_defs)

text \<open>
  C8 as amended.  A match object is created in \<open>waiting\<close> and is never in \<open>starting\<close>.
  In every state reached from the initial state, a step changes the status of a match
  only from \<open>waiting\<close> to \<open>active\<close> or from \<open>active\<close> to \<open>finished\<close>, with one
  exception: a disconnect that empties the roster finishes the match whatever its
  status, so that a match can go directly from \<open>waiting\<close> to \<open>finished\<close>, and does so
  only in that way.  This leaves aside the one step of which nothing is said here: the
  deferred start timer firing for a match that is no longer \<open>waiting\<close>.
\<close>

theorem status_steps:
  assumes "run es init = Some (s, out)" and "step now ev s = Some (s', out')"
      and "matchObjs s m = Some a"
      and "\<not> (\<exists>i. ev = TimerFires i \<and> snd (timers s ! i) = StartTimer m \<and> status a \<noteq> Waiting)"
  shows "(\<exists>b. matchObjs s' m = Some b \<and> status a \<noteq> Starting \<and> status b \<noteq> Starting \<and>
              (status b = status a
               \<or> (status a = Waiting \<and> status b = Active)
               \<or> (status a = Active \<and> status b = Finished)
               \<or> (status a = Waiting \<and> status b = Finished \<and> (\<exists>sock. ev = Disconnect sock)
                    \<and> players b = []))
              \<and> ((\<exists>sock. ev = Disconnect sock) \<and> players a \<noteq> [] \<and> players b = []
                    \<longrightarrow> status b = Finished))
       \<and> (\<forall>k b. matchObjs s k = None \<and> matchObjs s' k = Some b \<longrightarrow> status b = Waiting)"
proof -
  let ?s0 = "s\<lparr> clock := now \<rparr>"
  have snd: "sound s" using run_sound[OF assms(1) init_sound] .
  have et: "end_timers_ok s" using assms(1) by (rule reached_end_timers)
  from step_moves[OF assms(2) snd] have mv: "status_moves s s'" and s': "sound s'" by simp_all
  have na: "status a \<noteq> Starting"
    using snd assms(3) unfolding sound_def never_starting_def
    by (elim conjE, erule_tac x = m in allE) simp
  have nb: "status b \<noteq> Starting" if "matchObjs s' m = Some b" for b
    using s' that unfolding sound_def never_starting_def
    by (elim conjE, erule_tac x = m in allE) simp
  have new: "status b = Waiting" if "matchObjs s k = None" "matchObjs s' k = Some b" for k b
    using mv that unfolding status_moves_def by (erule_tac x = k in allE) simp
  have o0: "matchObjs ?s0 m = Some a" using assms(3) by simp
  have main: "\<exists>b. matchObjs s' m = Some b \<and>
              (status b = status a
               \<or> (status a = Waiting \<and> status b = Active)
               \<or> (status a = Active \<and> status b = Finished)
               \<or> (status a = Waiting \<and> status b = Finished \<and> (\<exists>sock. ev = Disconnect sock)
                    \<and> players b = []))
              \<and> ((\<exists>sock. ev = Disconnect sock) \<and> players a \<noteq> [] \<and> players b = []
                    \<longrightarrow> status b = Finished)"
  proof (cases ev)
    case (JoinQueue sock u n)
    with assms(2) have e: "s' = fst (handleJoinQueue now ?s0 sock u n)"
      by (auto simp: step_def Let_def split: if_splits)
    have "fresh_ids ?s0" using snd by (simp add: sound_def fresh_ids_def)
    from handleJoinQueue_keeps[OF this o0, of now sock u n] e JoinQueue
    show ?thesis by simp
  next
    case (LeaveQueue sock u)
    with assms(2) have "s' = fst (handleLeaveQueue ?s0 sock u)"
      by (auto simp: step_def Let_def split: if_splits)
    then have "matchObjs s' m = Some a" using assms(3) by (simp add: handleLeaveQueue_def)
    with LeaveQueue show ?thesis by simp
  next
    case (PlayerReady sock u k)
    with assms(2) have e: "s' = fst (handlePlayerReady now ?s0 sock u k)"
      by (auto simp: step_def Let_def split: if_splits)
    from handlePlayerReady_status[OF o0, of now sock u k] e PlayerReady
    show ?thesis by auto
  next
    case (Tap sock u k ts)
    with assms(2) have e: "s' = fst (handleTap now ?s0 sock u k ts)"
      by (auto simp: step_def Let_def split: if_splits)
    from handleTap_status[OF o0, of now sock u k ts] e Tap
    show ?thesis by auto
  next
    case (Disconnect sock)
    with assms(2) have e: "s' = fst (handleDisconnect now ?s0 sock)"
      by (auto simp: step_def Let_def split: if_splits)
    from disc_rel_objD[OF disc_handleDisconnect o0, of now sock] e obtain b where
      b: "matchObjs s' m = Some b" "disc_obj a b" by auto
    have cases3: "status a = Waiting \<or> status a = Active \<or> status a = Finished"
      using na by (cases "status a") simp_all
    have "status b = status a
               \<or> (status a = Waiting \<and> status b = Active)
               \<or> (status a = Active \<and> status b = Finished)
               \<or> (status a = Waiting \<and> status b = Finished \<and> (\<exists>sock. ev = Disconnect sock)
                    \<and> players b = [])"
      using b(2) cases3 Disconnect unfolding disc_obj_def by auto
    moreover have "players a \<noteq> [] \<and> players b = [] \<longrightarrow> status b = Finished"
      using b(2) unfolding disc_obj_def by auto
    ultimately show ?thesis using b(1) by blast
  next
    case (TimerFires i)
    with assms(2) have f: "fire now ?s0 i = Some (s', out')"
      by (auto simp: step_def Let_def split: if_splits)
    from fire_status[OF f o0] obtain b where b: "matchObjs s' m = Some b"
      "status b = status a
        \<or> (snd (timers s ! i) = StartTimer m \<and> status b = Active)
        \<or> (snd (timers s ! i) = EndTimer m \<and> status b = Finished)" by auto
    have il: "i < length (timers s)" using fire_index[OF f] by simp
    have "status b = status a
               \<or> (status a = Waiting \<and> status b = Active)
               \<or> (status a = Active \<and> status b = Finished)"
      using b(2)
    proof (elim disjE conjE)
      assume "status b = status a"
      then show ?thesis by simp
    next
      assume t: "snd (timers s ! i) = StartTimer m" and ac: "status b = Active"
      from assms(4) TimerFires t have "status a = Waiting" by auto
      with ac show ?thesis by simp
    next
      assume t: "snd (timers s ! i) = EndTimer m" and fi: "status b = Finished"
      have "timers s ! i \<in> set (timers s)" using il by simp
      with t have "(fst (timers s ! i), EndTimer m) \<in> set (timers s)"
        by (metis prod.collapse)
      with et assms(3) have "status a \<noteq> Waiting" unfolding end_timers_ok_def by fastforce
      with na have "status a = Active \<or> status a = Finished" by (cases "status a") simp_all
      with fi show ?thesis by auto
    qed
    with b(1) TimerFires show ?thesis by auto
  qed
  then obtain b where "matchObjs s' m = Some b"
     "(status b = status a
               \<or> (status a = Waiting \<and> status b = Active)
               \<or> (status a = Active \<and> status b = Finished)
               \<or> (status a = Waiting \<and> status b = Finished \<and> (\<exists>sock. ev = Disconnect sock)
                    \<and> players b = []))"
     "((\<exists>sock. ev = Disconnect sock) \<and> players a \<noteq> [] \<and> players b = []
                    \<longrightarrow> status b = Finished)" by blast
  with na nb new show ?thesis by blast
qed

theorem status_steps_witness:
  "state_after tr_one_left = Some st_one_left \<and>
   map_option fst (step 200 (Disconnect ''s2'') st_one_left) = Some st_abandoned \<and>
   matchObjs st_one_left 0 = Some match_one_left \<and> status match_one_left = Waiting \<and>
   players match_one_left \<noteq> [] \<and>
   matchObjs st_abandoned 0 = Some match_abandoned \<and> status match_abandoned = Finished \<and>
   players match_abandoned = [] \<and>
   state_after tr_active = Some st_active \<and>
   map_option fst (step 32010 (TimerFires 0) st_active) = Some st_ended \<and>
   snd (timers st_active ! 0) = EndTimer 0 \<and>
   matchObjs st_active 0 = Some match_active \<and> status match_active = Active \<and>
   matchObjs st_ended 0 = Some match_ended \<and> status match_ended = Finished"
proof -
  from st_one_left_reached obtain o1 where r1: "run tr_one_left init = Some (st_one_left, o1)"
    by (auto simp: state_after_def)
  from st_abandoned_reached obtain o2 where
    s1: "step 200 (Disconnect ''s2'') st_one_left = Some (st_abandoned, o2)" by auto
  have a1: "matchObjs st_one_left 0 = Some match_one_left" "status match_one_left = Waiting"
           "players match_one_left \<noteq> []"
           "matchObjs st_abandoned 0 = Some match_abandoned" "players match_abandoned = []"
    by (simp_all add: st_one_left_def st_abandoned_def st_found_def match_one_left_def
                      match_abandoned_def match_found_def)
  have h1: "\<not> (\<exists>i. Disconnect ''s2'' = TimerFires i \<and> snd (timers st_one_left ! i) = StartTimer 0
                  \<and> status match_one_left \<noteq> Waiting)" by simp
  from status_steps[OF r1 s1 a1(1) h1] a1(3,4,5)
  have f1: "status match_abandoned = Finished" by auto
  from st_active_reached obtain o3 where r2: "run tr_active init = Some (st_active, o3)"
    by (auto simp: state_after_def)
  have st: "map_option fst (step 32010 (TimerFires 0) st_active) = Some st_ended"
    by (simp add: model_defs example_defs fun_eq_iff)
  then obtain o4 where s2: "step 32010 (TimerFires 0) st_active = Some (st_ended, o4)" by auto
  have a2: "matchObjs st_active 0 = Some match_active" "status match_active = Active"
           "matchObjs st_ended 0 = Some match_ended" "snd (timers st_active ! 0) = EndTimer 0"
    by (simp_all add: st_active_def st_ended_def match_active_def match_ended_def)
  have h2: "\<not> (\<exists>i. TimerFires 0 = TimerFires i \<and> snd (timers st_active ! i) = StartTimer 0
                  \<and> status match_active \<noteq> Waiting)"
    using a2(4) by simp
  from status_steps[OF r2 s2 a2(1) h2] a2(2,3)
  have f2: "status match_ended = Finished \<or> status match_ended = status match_active" by auto
  then have f2': "status match_ended = Finished" by (simp add: match_ended_def match_active_def)
  from st_one_left_reached st_abandoned_reached a1 f1 st_active_reached st a2 f2'
  show ?thesis by simp
qed


section \<open>Winner, results and join order\<close>

lemma subseq_pair:
  assumes "subseq ks [v, u]" and "v \<in> set ks" and "u \<in> set ks" and "v \<noteq> u"
  shows "ks = [v, u]"
proof -
  have "length ks \<le> 2" using list_emb_length[OF assms(1)] by simp
  moreover have "card {v, u} \<le> card (set ks)" using assms(2,3) by (intro card_mono) auto
  then have "2 \<le> card (set ks)" using assms(4) by simp
  then have "2 \<le> length ks" using card_length[of ks] by simp
  ultimately have "length ks = length [v, u]" by simp
  with assms(1) show ?thesis by (rule subseq_same_length)
qed

lemma keys_pair:
  assumes "map fst xs = [v, u]"
  shows "\<exists>x y. xs = [(v, x), (u, y)]"
proof -
  from assms obtain e1 e2 where "xs = [e1, e2]" "fst e1 = v" "fst e2 = u"
    by (cases xs; cases "tl xs") auto
  then have "xs = [(v, snd e1), (u, snd e2)]" by (metis prod.collapse)
  then show ?thesis by blast
qed

text \<open>The rows with a given count are the rows of the players with that count, in roster order.\<close>

lemma results_rows:
  "filter (\<lambda>r. r_taps r = k) (sort_results (map (mk_result (Some w)) ps))
     = map (\<lambda>p. \<lparr> r_id = pid p, r_username = username p, r_taps = validatedTaps p,
                   r_isWinner = (pid p = w) \<rparr>)
           (filter (\<lambda>p. validatedTaps p = k) ps)"
  by (simp add: sort_results_stable filter_map o_def mk_result_def)

lemma endMatch_two_players:
  assumes g: "get_match s m = Some match" and pl: "players match = [(v, a), (u, b)]"
      and ok: "roster_ok match"
  shows "winner_of (fst (endMatch now s m)) m
           = Some (Some (if validatedTaps a < validatedTaps b then u else v))"
proof -
  have live: "m \<in> set (matches s)" using g by (rule get_match_live)
  have ids: "pid a = v" "pid b = u" using ok pl by (auto simp: roster_ok_def)
  have "snd (determine_winner [a, b]) = Some (if validatedTaps a < validatedTaps b then b else a)"
    by (simp add: determine_winner_def winner_step_def)
  then show ?thesis using live ids
    by (simp add: endMatch_live[OF g] pl get_match_def winner_of_def Let_def)
qed

text \<open>
  The match created by a pair-completing join, followed through the rest of the run: its
  roster only loses entries.
\<close>

lemma roster_after_join:
  assumes r0: "run es init = Some (q0, out0)"
      and j: "step t0 (JoinQueue sock u n) q0 = Some (q1, out1)"
      and f: "playerToMatch q0 u = None" "playerQueue q0 u = None"
      and len: "Suc (length (queue q0)) = MATCH_SIZE"
      and r2: "run es2 q1 = Some (s2, out2)"
  shows "\<exists>match2. matchObjs s2 (nextMatchId q0) = Some match2 \<and>
           subseq (map fst (players match2)) (map fst (queue q0) @ [u]) \<and> roster_ok match2"
proof -
  let ?pl = "\<lparr> pid = u, socketId = sock, username = n, taps = 0, isReady = False,
               lastTapTimestamp = 0, validatedTaps = 0 \<rparr>"
  have "map_option players (get_match q1 (nextMatchId q0)) = Some (queue q0 @ [(u, ?pl)])"
    using r0 j f len by (rule join_completes_pair)
  then obtain match1 where m1: "get_match q1 (nextMatchId q0) = Some match1"
      "players match1 = queue q0 @ [(u, ?pl)]" by auto
  then have o1: "matchObjs q1 (nextMatchId q0) = Some match1" by (auto dest: get_match_SomeD)
  have "queue_ok q0" using queue_ok_run[OF r0 queue_ok_init] .
  then have ok1: "roster_ok match1" by (auto simp: roster_ok_def queue_ok_def m1(2))
  have "sound q0" using run_sound[OF r0 init_sound] .
  with step_moves[OF j] have "sound q1" by simp
  with r2 have "kept q1 s2" by (rule run_kept)
  from kept_objD[OF this o1] obtain match2 where
    "matchObjs s2 (nextMatchId q0) = Some match2" "obj_step match1 match2" by blast
  with ok1 m1(2) show ?thesis by (auto simp: obj_step_def)
qed

text \<open>
  C6.  When \<open>endMatch\<close> runs on a match with a non-empty roster, the winner is the player
  at some roster position \<open>i\<close> whose \<open>validatedTaps\<close> is at least that of every player and
  strictly greater than that of every player before position \<open>i\<close>: the greatest count
  wins and, among equal counts, the earliest roster position.  Every roster player
  receives \<open>match_ended\<close> with that winner and with a results array that is in descending
  order of \<open>taps\<close> and in which, for every count, the rows with that count are the rows
  (id, username, taps = validatedTaps, isWinner) of the roster players with that count,
  in roster order.  The roster order is the order of joining the queue: \<open>createMatch\<close>
  makes the first \<open>MATCH_SIZE\<close> queue entries, in queue order, the roster of the new match;
  in every state reached from the initial state a join that completes a pair creates
  the roster "the waiting players, then the joiner"; whatever the rest of the run does,
  the roster of that match only loses entries, so the players that stay keep that order;
  and so, when the player \<open>v\<close> who was waiting and the joiner \<open>u\<close> are both on the roster
  at \<open>endMatch\<close>, the winner is \<open>u\<close> if \<open>u\<close> has strictly more validated taps and \<open>v\<close>
  otherwise, in particular \<open>v\<close> on a tie.
\<close>

theorem endMatch_winner_order:
  "(get_match s m = Some match \<and> players match \<noteq> [] \<longrightarrow>
      (\<exists>i<length (players match). \<exists>results.
          (\<forall>j<length (players match).
              validatedTaps (snd (players match ! j)) \<le> validatedTaps (snd (players match ! i))) \<and>
          (\<forall>j<i. validatedTaps (snd (players match ! j)) < validatedTaps (snd (players match ! i))) \<and>
          winner_of (fst (endMatch now s m)) m = Some (Some (pid (snd (players match ! i)))) \<and>
          snd (endMatch now s m) =
            map (\<lambda>p. Emit (ToSocket (socketId p))
                       (MatchEnded m results (Some (pid (snd (players match ! i))))))
                (map snd (players match)) \<and>
          sorted_wrt (\<lambda>a b. r_taps a \<ge> r_taps b) results \<and>
          (\<forall>k. filter (\<lambda>r. r_taps r = k) results
                 = map (\<lambda>p. \<lparr> r_id = pid p, r_username = username p, r_taps = validatedTaps p,
                               r_isWinner = (pid p = pid (snd (players match ! i))) \<rparr>)
                       (filter (\<lambda>p. validatedTaps p = k) (map snd (players match)))))) \<and>
   (MATCH_SIZE \<le> length (queue q) \<and> distinct (map fst (queue q)) \<and>
    (\<forall>e\<in>set (queue q). pid (snd e) = fst e) \<longrightarrow>
      map_option players (get_match (fst (createMatch t q)) (nextMatchId q))
        = Some (take MATCH_SIZE (queue q))) \<and>
   (run es init = Some (q0, out0) \<and> step t0 (JoinQueue sock u n) q0 = Some (q1, out1) \<and>
    playerToMatch q0 u = None \<and> playerQueue q0 u = None \<and> Suc (length (queue q0)) = MATCH_SIZE \<and>
    run es2 q1 = Some (s2, out2) \<longrightarrow>
      map_option players (get_match q1 (nextMatchId q0))
        = Some (queue q0 @ [(u, \<lparr> pid = u, socketId = sock, username = n, taps = 0, isReady = False,
                                   lastTapTimestamp = 0, validatedTaps = 0 \<rparr>)]) \<and>
      (\<exists>match2. matchObjs s2 (nextMatchId q0) = Some match2 \<and>
          subseq (map fst (players match2)) (map fst (queue q0) @ [u]) \<and>
          (\<forall>e\<in>set (players match2). pid (snd e) = fst e) \<and>
          (\<forall>v a b now2. map fst (queue q0) = [v] \<and> nextMatchId q0 \<in> set (matches s2) \<and>
               map_of (players match2) v = Some a \<and> map_of (players match2) u = Some b \<longrightarrow>
               players match2 = [(v, a), (u, b)] \<and>
               winner_of (fst (endMatch now2 s2 (nextMatchId q0))) (nextMatchId q0)
                 = Some (Some (if validatedTaps a < validatedTaps b then u else v)))))"
proof -
  have A: "\<exists>i<length (players match). \<exists>results.
          (\<forall>j<length (players match).
              validatedTaps (snd (players match ! j)) \<le> validatedTaps (snd (players match ! i))) \<and>
          (\<forall>j<i. validatedTaps (snd (players match ! j)) < validatedTaps (snd (players match ! i))) \<and>
          winner_of (fst (endMatch now s m)) m = Some (Some (pid (snd (players match ! i)))) \<and>
          snd (endMatch now s m) =
            map (\<lambda>p. Emit (ToSocket (socketId p))
                       (MatchEnded m results (Some (pid (snd (players match ! i))))))
                (map snd (players match)) \<and>
          sorted_wrt (\<lambda>a b. r_taps a \<ge> r_taps b) results \<and>
          (\<forall>k. filter (\<lambda>r. r_taps r = k) results
                 = map (\<lambda>p. \<lparr> r_id = pid p, r_username = username p, r_taps = validatedTaps p,
                               r_isWinner = (pid p = pid (snd (players match ! i))) \<rparr>)
                       (filter (\<lambda>p. validatedTaps p = k) (map snd (players match))))"
    if g: "get_match s m = Some match" and ne: "players match \<noteq> []"
  proof -
    let ?ps = "map snd (players match)"
    have live: "m \<in> set (matches s)" using g by (rule get_match_live)
    have ne': "?ps \<noteq> []" using ne by simp
    from first_max_index[OF ne'] obtain i where i: "i < length ?ps"
      "find (\<lambda>p. validatedTaps p = Max (validatedTaps ` set ?ps)) ?ps = Some (?ps ! i)"
      "\<forall>j<length ?ps. validatedTaps (?ps ! j) \<le> validatedTaps (?ps ! i)"
      "\<forall>j<i. validatedTaps (?ps ! j) < validatedTaps (?ps ! i)" by blast
    have il: "i < length (players match)" using i(1) by simp
    have n: "?ps ! j = snd (players match ! j)" if "j < length (players match)" for j
      using that by simp
    let ?w = "pid (snd (players match ! i))"
    let ?res = "sort_results (map (mk_result (Some ?w)) ?ps)"
    have 1: "\<forall>j<length (players match).
               validatedTaps (snd (players match ! j)) \<le> validatedTaps (snd (players match ! i))"
      using i(3) il n by simp
    have 2: "\<forall>j<i. validatedTaps (snd (players match ! j)) < validatedTaps (snd (players match ! i))"
      using i(4) il n by simp
    have w: "snd (determine_winner ?ps) = Some (snd (players match ! i))"
      using determine_winner_find[OF ne'] i(2) n[OF il] by simp
    have 3: "winner_of (fst (endMatch now s m)) m = Some (Some ?w)"
      using live w by (simp add: endMatch_live[OF g] get_match_def winner_of_def Let_def)
    have 4: "snd (endMatch now s m) =
            map (\<lambda>p. Emit (ToSocket (socketId p)) (MatchEnded m ?res (Some ?w))) ?ps"
      using w by (simp add: endMatch_live[OF g] Let_def)
    have 5: "sorted_wrt (\<lambda>a b. r_taps a \<ge> r_taps b) ?res" by (rule sort_results_desc)
    have 6: "\<forall>k. filter (\<lambda>r. r_taps r = k) ?res
                 = map (\<lambda>p. \<lparr> r_id = pid p, r_username = username p, r_taps = validatedTaps p,
                               r_isWinner = (pid p = ?w) \<rparr>)
                       (filter (\<lambda>p. validatedTaps p = k) ?ps)"
      by (rule allI) (rule results_rows)
    from il 1 2 3 4 5 6 show ?thesis by blast
  qed
  have C: "map_option players (get_match q1 (nextMatchId q0))
        = Some (queue q0 @ [(u, \<lparr> pid = u, socketId = sock, username = n, taps = 0, isReady = False,
                                   lastTapTimestamp = 0, validatedTaps = 0 \<rparr>)]) \<and>
      (\<exists>match2. matchObjs s2 (nextMatchId q0) = Some match2 \<and>
          subseq (map fst (players match2)) (map fst (queue q0) @ [u]) \<and>
          (\<forall>e\<in>set (players match2). pid (snd e) = fst e) \<and>
          (\<forall>v a b now2. map fst (queue q0) = [v] \<and> nextMatchId q0 \<in> set (matches s2) \<and>
               map_of (players match2) v = Some a \<and> map_of (players match2) u = Some b \<longrightarrow>
               players match2 = [(v, a), (u, b)] \<and>
               winner_of (fst (endMatch now2 s2 (nextMatchId q0))) (nextMatchId q0)
                 = Some (Some (if validatedTaps a < validatedTaps b then u else v))))"
    if r0: "run es init = Some (q0, out0)"
      and j: "step t0 (JoinQueue sock u n) q0 = Some (q1, out1)"
      and f: "playerToMatch q0 u = None" "playerQueue q0 u = None"
      and len: "Suc (length (queue q0)) = MATCH_SIZE"
      and r2: "run es2 q1 = Some (s2, out2)"
  proof -
    have c1: "map_option players (get_match q1 (nextMatchId q0))
        = Some (queue q0 @ [(u, \<lparr> pid = u, socketId = sock, username = n, taps = 0, isReady = False,
                                   lastTapTimestamp = 0, validatedTaps = 0 \<rparr>)])"
      using r0 j f len by (rule join_completes_pair)
    from roster_after_join[OF r0 j f len r2] obtain match2 where
      m2: "matchObjs s2 (nextMatchId q0) = Some match2"
          "subseq (map fst (players match2)) (map fst (queue q0) @ [u])" "roster_ok match2"
      by blast
    have qk: "queue_ok q0" using queue_ok_run[OF r0 queue_ok_init] .
    have tie: "players match2 = [(v, a), (u, b)] \<and>
               winner_of (fst (endMatch now2 s2 (nextMatchId q0))) (nextMatchId q0)
                 = Some (Some (if validatedTaps a < validatedTaps b then u else v))"
      if k: "map fst (queue q0) = [v]" and lv: "nextMatchId q0 \<in> set (matches s2)"
        and ma: "map_of (players match2) v = Some a" and mb: "map_of (players match2) u = Some b"
      for v a b now2
    proof -
      have "v \<in> fst ` set (queue q0)" using k by (metis list.set_intros(1) set_map)
      moreover have "u \<notin> fst ` set (queue q0)" using qk f(2) by (auto simp: queue_ok_def)
      ultimately have vu: "v \<noteq> u" by auto
      have "(v, a) \<in> set (players match2)" "(u, b) \<in> set (players match2)"
        using ma mb by (auto dest: map_of_SomeD)
      then have "v \<in> set (map fst (players match2))" "u \<in> set (map fst (players match2))"
        by force+
      with m2(2) k vu have "map fst (players match2) = [v, u]" by (intro subseq_pair) simp_all
      from keys_pair[OF this] obtain x y where xy: "players match2 = [(v, x), (u, y)]" by blast
      with ma mb vu have pl: "players match2 = [(v, a), (u, b)]" by simp
      have g2: "get_match s2 (nextMatchId q0) = Some match2"
        using lv m2(1) by (simp add: get_match_def)
      from endMatch_two_players[OF g2 pl m2(3), of now2] pl show ?thesis by simp
    qed
    have tie': "\<forall>v a b now2. map fst (queue q0) = [v] \<and> nextMatchId q0 \<in> set (matches s2) \<and>
               map_of (players match2) v = Some a \<and> map_of (players match2) u = Some b \<longrightarrow>
               players match2 = [(v, a), (u, b)] \<and>
               winner_of (fst (endMatch now2 s2 (nextMatchId q0))) (nextMatchId q0)
                 = Some (Some (if validatedTaps a < validatedTaps b then u else v))"
    proof (intro allI impI)
      fix v a b now2
      assume "map fst (queue q0) = [v] \<and> nextMatchId q0 \<in> set (matches s2) \<and>
               map_of (players match2) v = Some a \<and> map_of (players match2) u = Some b"
      then have "map fst (queue q0) = [v]" "nextMatchId q0 \<in> set (matches s2)"
         "map_of (players match2) v = Some a" "map_of (players match2) u = Some b" by simp_all
      then show "players match2 = [(v, a), (u, b)] \<and>
               winner_of (fst (endMatch now2 s2 (nextMatchId q0))) (nextMatchId q0)
                 = Some (Some (if validatedTaps a < validatedTaps b then u else v))"
        by (rule tie)
    qed
    have ok2: "\<forall>e\<in>set (players match2). pid (snd e) = fst e"
      using m2(3) by (simp add: roster_ok_def)
    show ?thesis
      by (rule conjI, rule c1, rule exI[of _ match2], intro conjI, rule m2(1), rule m2(2),
          rule ok2, rule tie')
  qed
  show ?thesis
    using A C createMatch_roster[of q t] by blast
qed

theorem endMatch_winner_order_witness:
  "state_after tr_one_queued = Some st_one_queued \<and>
   playerToMatch st_one_queued ''B'' = None \<and> playerQueue st_one_queued ''B'' = None \<and>
   Suc (length (queue st_one_queued)) = MATCH_SIZE \<and> map fst (queue st_one_queued) = [''A''] \<and>
   map_option fst (step 10 (JoinQueue ''s2'' ''B'' ''bob'') st_one_queued) = Some st_found \<and>
   map_option players (get_match st_found 0) = Some [(''A'', alice), (''B'', bob)] \<and>
   map_option fst (run tr_tie_rest st_found) = Some st_tie \<and>
   get_match st_tie 0 = Some match_tie \<and>
   map (\<lambda>e. (fst e, validatedTaps (snd e), lastTapTimestamp (snd e))) (players match_tie)
     = [(''A'', 1, 2200), (''B'', 1, 2100)] \<and>
   winner_of (fst (endMatch 32010 st_tie 0)) 0 = Some (Some ''A'') \<and>
   snd (endMatch 32010 st_tie 0)
     = [Emit (ToSocket ''s1'')
          (MatchEnded 0 [\<lparr> r_id = ''A'', r_username = ''alice'', r_taps = 1, r_isWinner = True \<rparr>,
                         \<lparr> r_id = ''B'', r_username = ''bob'', r_taps = 1, r_isWinner = False \<rparr>]
                      (Some ''A'')),
        Emit (ToSocket ''s2'')
          (MatchEnded 0 [\<lparr> r_id = ''A'', r_username = ''alice'', r_taps = 1, r_isWinner = True \<rparr>,
                         \<lparr> r_id = ''B'', r_username = ''bob'', r_taps = 1, r_isWinner = False \<rparr>]
                      (Some ''A''))] \<and>
   MATCH_SIZE \<le> length (queue st_queued) \<and> distinct (map fst (queue st_queued)) \<and>
   map (\<lambda>e. pid (snd e)) (queue st_queued) = map fst (queue st_queued) \<and>
   map_option players (get_match (fst (createMatch 10 st_queued)) 0)
     = Some [(''A'', alice), (''B'', bob)]"
proof -
  from st_one_queued_reached obtain o0 where
    r0: "run tr_one_queued init = Some (st_one_queued, o0)" by (auto simp: state_after_def)
  from st_found_reached obtain o1 where
    j: "step 10 (JoinQueue ''s2'' ''B'' ''bob'') st_one_queued = Some (st_found, o1)" by auto
  from st_tie_reached obtain o2 where r2: "run tr_tie_rest st_found = Some (st_tie, o2)" by auto
  have h: "playerToMatch st_one_queued ''B'' = None \<and> playerQueue st_one_queued ''B'' = None \<and>
           Suc (length (queue st_one_queued)) = MATCH_SIZE"
          "map fst (queue st_one_queued) = [''A'']" "nextMatchId st_one_queued = 0"
          "queue st_one_queued = [(''A'', alice)]"
    by (simp_all add: st_one_queued_def init_def MATCH_SIZE_def)
  have g: "get_match st_tie 0 = Some match_tie" "matchObjs st_tie 0 = Some match_tie"
          "0 \<in> set (matches st_tie)"
    by (simp_all add: get_match_def st_tie_def st_active_def)
  have pl: "players match_tie
              = [(''A'', alice\<lparr> taps := 1, lastTapTimestamp := 2200, validatedTaps := 1 \<rparr>),
                 (''B'', bob\<lparr> taps := 1, lastTapTimestamp := 2100, validatedTaps := 1 \<rparr>)]"
    by (simp add: match_tie_def)
  have q: "MATCH_SIZE \<le> length (queue st_queued) \<and> distinct (map fst (queue st_queued)) \<and>
           (\<forall>e\<in>set (queue st_queued). pid (snd e) = fst e)"
          "nextMatchId st_queued = 0"
          "take MATCH_SIZE (queue st_queued) = [(''A'', alice), (''B'', bob)]"
          "map (\<lambda>e. pid (snd e)) (queue st_queued) = map fst (queue st_queued)"
    by (simp_all add: st_queued_def init_def MATCH_SIZE_def alice_def bob_def)
  note inst = endMatch_winner_order[where s = st_tie and m = 0 and match = match_tie
      and now = 32010 and q = st_queued and t = 10 and es = tr_one_queued
      and ?q0.0 = st_one_queued and ?out0.0 = o0 and ?t0.0 = 10 and sock = "''s2''"
      and u = "''B''" and n = "''bob''" and ?q1.0 = st_found and ?out1.0 = o1
      and ?es2.0 = tr_tie_rest and ?s2.0 = st_tie and ?out2.0 = o2]
  from inst r0 j h(1) r2
  have c: "map_option players (get_match st_found (nextMatchId st_one_queued))
        = Some (queue st_one_queued @ [(''B'', \<lparr> pid = ''B'', socketId = ''s2'', username = ''bob'',
               taps = 0, isReady = False, lastTapTimestamp = 0, validatedTaps = 0 \<rparr>)])"
    by blast
  then have c': "map_option players (get_match st_found 0) = Some [(''A'', alice), (''B'', bob)]"
    by (simp add: h bob_def)
  from inst r0 j h(1) r2 obtain match2 where
    m2: "matchObjs st_tie (nextMatchId st_one_queued) = Some match2"
    and tie: "\<forall>v a b now2. map fst (queue st_one_queued) = [v] \<and>
               nextMatchId st_one_queued \<in> set (matches st_tie) \<and>
               map_of (players match2) v = Some a \<and> map_of (players match2) ''B'' = Some b \<longrightarrow>
               players match2 = [(v, a), (''B'', b)] \<and>
               winner_of (fst (endMatch now2 st_tie (nextMatchId st_one_queued))) (nextMatchId st_one_queued)
                 = Some (Some (if validatedTaps a < validatedTaps b then ''B'' else v))"
    by blast
  from m2 g(2) h(3) have eq: "match2 = match_tie" by simp
  have "map_of (players match_tie) ''A''
          = Some (alice\<lparr> taps := 1, lastTapTimestamp := 2200, validatedTaps := 1 \<rparr>)"
       "map_of (players match_tie) ''B''
          = Some (bob\<lparr> taps := 1, lastTapTimestamp := 2100, validatedTaps := 1 \<rparr>)"
    by (simp_all add: pl)
  with tie[rule_format, of "''A''" "alice\<lparr> taps := 1, lastTapTimestamp := 2200, validatedTaps := 1 \<rparr>"
                          "bob\<lparr> taps := 1, lastTapTimestamp := 2100, validatedTaps := 1 \<rparr>" 32010]
       h(2,3) g(3) eq
  have w: "winner_of (fst (endMatch 32010 st_tie 0)) 0 = Some (Some ''A'')" by simp
  from inst q(1)
  have cm: "map_option players (get_match (fst (createMatch 10 st_queued)) (nextMatchId st_queued))
            = Some (take MATCH_SIZE (queue st_queued))" by blast
  have rows: "map (\<lambda>e. (fst e, validatedTaps (snd e), lastTapTimestamp (snd e))) (players match_tie)
     = [(''A'', 1, 2200), (''B'', 1, 2100)]"
    by (simp add: pl)
  have em: "snd (endMatch 32010 st_tie 0)
     = [Emit (ToSocket ''s1'')
          (MatchEnded 0 [\<lparr> r_id = ''A'', r_username = ''alice'', r_taps = 1, r_isWinner = True \<rparr>,
                         \<lparr> r_id = ''B'', r_username = ''bob'', r_taps = 1, r_isWinner = False \<rparr>]
                      (Some ''A'')),
        Emit (ToSocket ''s2'')
          (MatchEnded 0 [\<lparr> r_id = ''A'', r_username = ''alice'', r_taps = 1, r_isWinner = True \<rparr>,
                         \<lparr> r_id = ''B'', r_username = ''bob'', r_taps = 1, r_isWinner = False \<rparr>]
                      (Some ''A''))]"
    by (simp add: model_defs example_defs)
  from st_one_queued_reached h(1,2) st_found_reached c' st_tie_reached g(1) rows w em q(1,4) cm
  show ?thesis by (simp add: q(2,3))
qed


section \<open>Deferred start after an early start\<close>

text \<open>
  C3, evaluated on the code.  \<open>handlePlayerReady\<close> starts a match only when its status
  is \<open>waiting\<close>, but \<open>startMatch\<close> itself has no status check and the timer set by
  \<open>createMatch\<close> is never cancelled.  In the run where A and B are paired at 10 and both
  are ready by 600, the match starts at 600 (\<open>match_started\<close> to both, end timer due at
  30600).  When the deferred start fires at 2010, \<open>match_started\<close> is emitted to both
  players a second time, \<open>startTime\<close> changes from 600 to 2010, and a second end timer
  (due at 32010) is scheduled.
\<close>

theorem deferred_start_restarts_match:
  "map_option (\<lambda>s. (status_of s 0, startTime_of s 0, timers s)) (state_after tr_early)
     = Some (Some Active, Some (Some 600), [(2010, StartTimer 0), (30600, EndTimer 0)]) \<and>
   emitted tr_early
     = Some [Emit (ToSocket ''s1'') (QueueJoined 1), Emit (ToSocket ''s2'') (QueueJoined 2),
             Emit (ToSocket ''s1'') (MatchFound 0 [(''A'', ''alice''), (''B'', ''bob'')]),
             Emit (ToSocket ''s2'') (MatchFound 0 [(''A'', ''alice''), (''B'', ''bob'')]),
             Emit (ToSocket ''s1'') (MatchStarted 0 30000 (Some 600)),
             Emit (ToSocket ''s2'') (MatchStarted 0 30000 (Some 600))] \<and>
   map_option (\<lambda>s. (status_of s 0, startTime_of s 0, timers s))
              (state_after (tr_early @ [(2010, TimerFires 0)]))
     = Some (Some Active, Some (Some 2010), [(30600, EndTimer 0), (32010, EndTimer 0)]) \<and>
   map_option (drop 6) (emitted (tr_early @ [(2010, TimerFires 0)]))
     = Some [Emit (ToSocket ''s1'') (MatchStarted 0 30000 (Some 2010)),
             Emit (ToSocket ''s2'') (MatchStarted 0 30000 (Some 2010))]"
  by (simp add: model_defs example_defs)

text \<open>
  The same unguarded deferred start also reaches a match that was finished while it was
  still waiting: after both players have left the waiting match (finished at 200), the
  start timer at 2010 sets the status back to \<open>active\<close>.
\<close>

lemma deferred_start_revives_finished:
  "map_option (\<lambda>s. status_of s 0) (state_after (tr_one_left @ [(200, Disconnect ''s2'')]))
     = Some (Some Finished) \<and>
   map_option (\<lambda>s. (status_of s 0, roster_of s 0))
              (state_after (tr_one_left @ [(200, Disconnect ''s2''), (2010, TimerFires 0)]))
     = Some (Some Active, Some [])"
  by (simp add: model_defs example_defs)


section \<open>Joining again while the finished match awaits clean-up\<close>

text \<open>
  What the design gives: \<open>endMatch\<close> does not touch \<open>playerToMatch\<close>, and a join by a
  player who has an entry there is refused with "Already in a match".
\<close>

lemma endMatch_keeps_playerToMatch: "playerToMatch (fst (endMatch now s m)) = playerToMatch s"
  by (simp add: endMatch_def put_match_def Let_def split: option.splits)

lemma handleJoinQueue_in_match:
  "playerToMatch s u \<noteq> None \<Longrightarrow>
   handleJoinQueue now s sock u n = (s, [err sock ''Already in a match''])"
  by (simp add: handleJoinQueue_def)

text \<open>
  C10, evaluated on the code.  The run continues the one above with every timer firing
  exactly when due.  Match 0 was started twice, so it is ended twice (30600, 32010) and
  cleaned up twice (35600, 37010).  A and B queue again after the first clean-up and are
  paired into match 1 at 35710; the second clean-up of match 0 at 37010 deletes the
  \<open>playerToMatch\<close> entries of its roster, which now belong to match 1.  When match 1
  has finished (67710) and its clean-up (due at 72710) is still pending, A is on its
  roster but not in \<open>playerToMatch\<close>, and A's join at 68000 is answered with
  \<open>queue_joined\<close>, not with "Already in a match".
\<close>

theorem stale_cleanup_allows_rejoin:
  "map_option (\<lambda>s. (status_of s 1, roster_of s 1, timers s, playerToMatch s ''A'', playerQueue s ''A''))
              (state_after tr_stale)
     = Some (Some Finished, Some [''A'', ''B''], [(72710, CleanupTimer 1)], None, None) \<and>
   map_option (\<lambda>s. (status_of s 1, roster_of s 1, playerQueue s ''A'', map fst (queue s)))
              (state_after (tr_stale @ [(68000, JoinQueue ''s1'' ''A'' ''alice'')]))
     = Some (Some Finished, Some [''A'', ''B''], Some ''main'', [''A'']) \<and>
   map_option last (emitted (tr_stale @ [(68000, JoinQueue ''s1'' ''A'' ''alice'')]))
     = Some (Emit (ToSocket ''s1'') (QueueJoined 1))"
  by (simp add: model_defs example_defs)

end
